theory Spec2Isabelle
  imports Main "HOL-Library.Word" "HOL-Library.Signed_Division"
begin

section \<open>Constants of tetris.c\<close>

definition COLS :: nat where "COLS = 10"
definition ROWS :: nat where "ROWS = 20"
definition TILE :: int where "TILE = 32"
definition START_SPEED_MS :: int where "START_SPEED_MS = 900"
definition SPEED_STEP_MS :: int where "SPEED_STEP_MS = 70"
definition MIN_SPEED_MS :: int where "MIN_SPEED_MS = 90"
definition MAX_PARTICLES :: nat where "MAX_PARTICLES = 4096"

definition imax :: "int \<Rightarrow> int \<Rightarrow> int" where
  "imax a b = (if a > b then a else b)"

text \<open>
  The values of a 32-bit C \<open>int\<close>, and the value such an \<open>int\<close> holds after an
  arithmetic operation whose mathematical result is \<open>x\<close>: the result wrapped into the
  two's-complement range.
\<close>

definition int32 :: "int \<Rightarrow> bool" where
  "int32 x = (- 2147483648 \<le> x \<and> x \<le> 2147483647)"

definition wrap32 :: "int \<Rightarrow> int" where
  "wrap32 x = (x + 2147483648) mod 4294967296 - 2147483648"

section \<open>Data model\<close>

text \<open>
  The C \<open>int\<close> fields are integers that hold 32-bit values. The scoring arithmetic of
  \<open>clear_lines\<close> grows without bound over a game, and every result of it is wrapped
  into the 32-bit range (\<open>wrap32\<close>), as the compiled program does on overflow. The
  sums of piece coordinates, which stay within a few cells of the board in play, are
  written without the wrap. The board, a mask and the particle pool
  are fixed-size C arrays, modelled as total functions on their indices: the code
  checks or bounds every index before it reads or writes them, and every loop below
  runs over exactly the index range of the source. The one array that is indexed
  without a check, the score table of \<open>clear_lines\<close>, is a list, and the read outside
  it is a result of its own.
\<close>

record Cell =
  filled :: bool
  cell_type :: int
  cell_tint :: int

type_synonym Board = "nat \<Rightarrow> nat \<Rightarrow> Cell"

type_synonym Mask = "nat \<Rightarrow> nat \<Rightarrow> 8 word"

record Piece =
  p_k :: int
  p_w :: int
  p_h :: int
  p_x :: int
  p_y :: int
  p_m :: Mask
  p_type :: int
  p_tint :: int

record Game =
  board :: Board
  cur :: Piece
  nxt :: Piece
  hold :: Piece
  has_hold :: bool
  can_hold :: bool
  game_over :: bool
  score :: int
  lines :: int
  level :: int
  fall_ms :: int
  fall_accum :: "32 word"

text \<open>The all-zero cell and piece that \<open>memset(..., 0, ...)\<close> leaves behind.\<close>

definition zero_cell :: Cell where
  "zero_cell = \<lparr>filled = False, cell_type = 0, cell_tint = 0\<rparr>"

definition zero_piece :: Piece where
  "zero_piece = \<lparr>p_k = 0, p_w = 0, p_h = 0, p_x = 0, p_y = 0, p_m = (\<lambda>r c. 0),
     p_type = 0, p_tint = 0\<rparr>"

section \<open>Collision detector\<close>

text \<open>
  \<open>collide\<close>: the inner loop over the columns \<open>c\<close> of mask row \<open>r\<close>, then the outer
  loop over the rows. Each returns \<open>True\<close> where the source executes \<open>return true\<close>;
  falling off the end of the index list is the source's \<open>return false\<close>.
\<close>

fun collide_cols :: "Board \<Rightarrow> Piece \<Rightarrow> int \<Rightarrow> int \<Rightarrow> nat \<Rightarrow> nat list \<Rightarrow> bool" where
  "collide_cols b p nx ny r [] = False"
| "collide_cols b p nx ny r (c # cs) =
     (if p_m p r c = 0 then collide_cols b p nx ny r cs
      else let x = nx + int c; y = ny + int r in
        if x < 0 \<or> x \<ge> int COLS \<or> y < 0 \<or> y \<ge> int ROWS then True
        else if filled (b (nat y) (nat x)) then True
        else collide_cols b p nx ny r cs)"

fun collide_rows :: "Board \<Rightarrow> Piece \<Rightarrow> int \<Rightarrow> int \<Rightarrow> nat list \<Rightarrow> bool" where
  "collide_rows b p nx ny [] = False"
| "collide_rows b p nx ny (r # rs) =
     (if collide_cols b p nx ny r [0..<4] then True else collide_rows b p nx ny rs)"

definition collide :: "Board \<Rightarrow> Piece \<Rightarrow> int \<Rightarrow> int \<Rightarrow> bool" where
  "collide b p nx ny = collide_rows b p nx ny [0..<4]"

text \<open>
  The specification's reading of a single mask cell: it is set, and its absolute
  coordinate is outside the board or on a filled board cell.
\<close>

definition cell_blocked :: "Board \<Rightarrow> Piece \<Rightarrow> int \<Rightarrow> int \<Rightarrow> nat \<Rightarrow> nat \<Rightarrow> bool" where
  "cell_blocked b p nx ny r c =
     (p_m p r c \<noteq> 0 \<and>
      (nx + int c < 0 \<or> nx + int c \<ge> int COLS \<or> ny + int r < 0 \<or> ny + int r \<ge> int ROWS \<or>
       filled (b (nat (ny + int r)) (nat (nx + int c)))))"

section \<open>Shapes and piece construction\<close>

definition SHAPES :: "8 word list list list" where
  "SHAPES =
    [[[0,0,0,0],[1,1,1,1],[0,0,0,0],[0,0,0,0]],
     [[1,1,0,0],[1,1,0,0],[0,0,0,0],[0,0,0,0]],
     [[0,1,0,0],[1,1,1,0],[0,0,0,0],[0,0,0,0]],
     [[0,1,1,0],[1,1,0,0],[0,0,0,0],[0,0,0,0]],
     [[1,1,0,0],[0,1,1,0],[0,0,0,0],[0,0,0,0]],
     [[1,0,0,0],[1,1,1,0],[0,0,0,0],[0,0,0,0]],
     [[0,0,1,0],[1,1,1,0],[0,0,0,0],[0,0,0,0]]]"

text \<open>
  \<open>piece_from_k(p, k)\<close>: the piece is zeroed, the 4x4 mask is copied from \<open>SHAPES[k]\<close>,
  and the visual type is \<open>rand() % 2\<close>. The results of \<open>rand()\<close> are inputs of the model
  (\<open>rt\<close> here): \<open>rand()\<close> returns a value in \<open>[0, RAND_MAX]\<close>, a natural number.
\<close>

definition piece_from_k :: "nat \<Rightarrow> nat \<Rightarrow> Piece" where
  "piece_from_k k rt =
     \<lparr>p_k = int k, p_w = 4, p_h = 4, p_x = int COLS div 2 - 2, p_y = 0,
      p_m = (\<lambda>r c. if r < 4 \<and> c < 4 then SHAPES ! k ! r ! c else 0),
      p_type = int (rt mod 2), p_tint = int k\<rparr>"

text \<open>\<open>new_bag_piece(p)\<close> is \<open>piece_from_k(p, rand() % 7)\<close>; \<open>rk\<close> is that \<open>rand()\<close>.\<close>

definition new_bag_piece :: "nat \<Rightarrow> nat \<Rightarrow> Piece" where
  "new_bag_piece rk rt = piece_from_k (rk mod 7) rt"

section \<open>Rotation\<close>

text \<open>
  \<open>rotate_cw\<close> and \<open>rotate_ccw\<close> fill a zeroed temporary \<open>t\<close> in a double loop
  (\<open>t[c][3-r] = m[r][c]\<close>, respectively \<open>t[3-c][r] = m[r][c]\<close>) and copy it back.
\<close>

definition rotate_cw :: "Piece \<Rightarrow> Piece" where
  "rotate_cw p =
     p\<lparr>p_m := fold (\<lambda>r t. fold (\<lambda>c t. t(c := (t c)(3 - r := p_m p r c))) [0..<4] t)
               [0..<4] (\<lambda>i j. 0)\<rparr>"

definition rotate_ccw :: "Piece \<Rightarrow> Piece" where
  "rotate_ccw p =
     p\<lparr>p_m := fold (\<lambda>r t. fold (\<lambda>c t. t(3 - c := (t (3 - c))(r := p_m p r c))) [0..<4] t)
               [0..<4] (\<lambda>i j. 0)\<rparr>"

text \<open>
  \<open>attempt_rotate\<close>: a rotated copy \<open>t\<close> of the current piece is tried at the five
  kick offsets in the order of the table; the first offset that does not collide is
  committed by \<open>g->cur = t\<close>, and the loop running out leaves the game untouched.
\<close>

definition kicks :: "(int \<times> int) list" where
  "kicks = [(0, 0), (1, 0), (-1, 0), (0, -1), (0, 1)]"

fun try_kicks :: "Game \<Rightarrow> Piece \<Rightarrow> (int \<times> int) list \<Rightarrow> Game" where
  "try_kicks g t [] = g"
| "try_kicks g t (kk # ks) =
     (if \<not> collide (board g) t (p_x t + fst kk) (p_y t + snd kk)
      then g\<lparr>cur := t\<lparr>p_x := p_x t + fst kk, p_y := p_y t + snd kk\<rparr>\<rparr>
      else try_kicks g t ks)"

definition attempt_rotate :: "Game \<Rightarrow> bool \<Rightarrow> Game" where
  "attempt_rotate g cw =
     try_kicks g (if cw then rotate_cw (cur g) else rotate_ccw (cur g)) kicks"

section \<open>Lock\<close>

text \<open>
  \<open>lock_piece\<close>: for every set mask cell whose absolute coordinate is on the board,
  the three fields of the board cell are written.
\<close>

fun lock_cols :: "Piece \<Rightarrow> nat \<Rightarrow> nat list \<Rightarrow> Board \<Rightarrow> Board" where
  "lock_cols p r [] b = b"
| "lock_cols p r (c # cs) b =
     (if p_m p r c = 0 then lock_cols p r cs b
      else let x = p_x p + int c; y = p_y p + int r in
        if y \<ge> 0 \<and> y < int ROWS \<and> x \<ge> 0 \<and> x < int COLS
        then lock_cols p r cs
               (b(nat y := (b (nat y))(nat x :=
                  (b (nat y) (nat x))\<lparr>filled := True, cell_type := p_type p,
                                        cell_tint := p_tint p\<rparr>)))
        else lock_cols p r cs b)"

fun lock_rows :: "Piece \<Rightarrow> nat list \<Rightarrow> Board \<Rightarrow> Board" where
  "lock_rows p [] b = b"
| "lock_rows p (r # rs) b = lock_rows p rs (lock_cols p r [0..<4] b)"

definition lock_piece :: "Game \<Rightarrow> Game" where
  "lock_piece g = g\<lparr>board := lock_rows (cur g) [0..<4] (board g)\<rparr>"

section \<open>Line clear\<close>

text \<open>The scan of one row: \<open>full\<close> starts true and the first empty cell ends the scan.\<close>

fun row_full_from :: "Board \<Rightarrow> nat \<Rightarrow> nat list \<Rightarrow> bool" where
  "row_full_from b r [] = True"
| "row_full_from b r (c # cs) = (if \<not> filled (b r c) then False else row_full_from b r cs)"

definition row_full :: "Board \<Rightarrow> nat \<Rightarrow> bool" where
  "row_full b r = row_full_from b r [0..<COLS]"

text \<open>
  The pull-down loop \<open>for(rr = r; rr > 0; rr--) board[rr] = board[rr-1]\<close>, followed by
  zeroing row 0.
\<close>

fun pull_rows :: "Board \<Rightarrow> nat \<Rightarrow> Board" where
  "pull_rows b 0 = b"
| "pull_rows b (Suc n) = pull_rows (b(Suc n := b n)) n"

definition pull_down :: "Board \<Rightarrow> nat \<Rightarrow> Board" where
  "pull_down b r = (pull_rows b r)(0 := (\<lambda>c. zero_cell))"

text \<open>
  The scanning loop of \<open>clear_lines\<close>, with the loop variable \<open>r\<close>, the counter
  \<open>cleared\<close> and the explosion requests made so far (pixel centre \<open>cx, cy\<close> of each
  call of \<open>spawn_explosion\<close>, which writes the particle pool only). On a full row the
  source's \<open>r++\<close> and the loop's \<open>r--\<close> cancel, so the same index is examined again.
\<close>

function clear_rows :: "Board \<Rightarrow> int \<Rightarrow> nat \<Rightarrow> (int \<times> int) list \<Rightarrow> Board \<times> nat \<times> (int \<times> int) list" where
  "clear_rows b r cleared ev =
     (if r < 0 then (b, cleared, ev)
      else if row_full b (nat r)
      then clear_rows (pull_down b (nat r)) r (cleared + 1)
             (ev @ [(TILE * int COLS div 2, TILE * r + TILE div 2)])
      else clear_rows b (r - 1) cleared ev)"
  by pat_completeness auto
termination
proof (relation "measure (\<lambda>(b, r, cleared, ev).
    nat (r + 1) + length (filter (row_full b) [0..<nat (r + 1)]))")
  show "wf (measure (\<lambda>(b, r, cleared, ev).
    nat (r + 1) + length (filter (row_full b) [0..<nat (r + 1)])))"
    by simp
next
  fix b :: Board and r :: int and cleared :: nat and ev :: "(int \<times> int) list"
  assume r: "\<not> r < 0" and full: "row_full b (nat r)"
  define n where "n = nat r"
  have pr: "pull_rows c k i = (if 0 < i \<and> i \<le> k then c (i - 1) else c i)" for c :: Board and k i
  proof (induction c k arbitrary: i rule: pull_rows.induct)
    case (1 c)
    show ?case by simp
  next
    case (2 c k)
    show ?case
    proof (cases "i = Suc k")
      case True
      then show ?thesis by (simp add: "2.IH")
    next
      case False
      then show ?thesis by (simp add: "2.IH") arith
    qed
  qed
  have rf: "row_full_from c k cs = list_all (\<lambda>j. filled (c k j)) cs"
    for c :: Board and k cs
    by (induction cs) auto
  have nf: "\<not> row_full (pull_down b n) 0"
    by (simp add: row_full_def pull_down_def zero_cell_def COLS_def upt_rec)
  have sh: "row_full (pull_down b n) (Suc i) = row_full b i" if "i < n" for i
  proof -
    have "pull_down b n (Suc i) = b i"
      using that by (simp add: pull_down_def pr)
    then show ?thesis by (simp add: row_full_def rf)
  qed
  have "filter (row_full (pull_down b n)) [0..<Suc n] =
        filter (row_full (pull_down b n)) (map Suc [0..<n])"
    using nf by (simp add: upt_conv_Cons del: upt_Suc) (simp add: map_Suc_upt)
  also have "length \<dots> = length (filter (\<lambda>i. row_full (pull_down b n) (Suc i)) [0..<n])"
    by (simp add: filter_map o_def)
  also have "filter (\<lambda>i. row_full (pull_down b n) (Suc i)) [0..<n] =
        filter (row_full b) [0..<n]"
    by (rule filter_cong) (auto simp: sh)
  finally have "length (filter (row_full (pull_down b n)) [0..<Suc n]) =
        length (filter (row_full b) [0..<n])" .
  moreover have "length (filter (row_full b) [0..<Suc n]) =
        Suc (length (filter (row_full b) [0..<n]))"
    using full by (simp add: n_def)
  moreover have "nat (r + 1) = Suc n"
    using r by (simp add: n_def nat_add_distrib)
  ultimately show "((pull_down b (nat r), r, cleared + 1,
       ev @ [(TILE * int COLS div 2, TILE * r + TILE div 2)]), (b, r, cleared, ev))
     \<in> measure (\<lambda>(b, r, cleared, ev).
        nat (r + 1) + length (filter (row_full b) [0..<nat (r + 1)]))"
    by (simp add: n_def)
next
  fix b :: Board and r :: int and cleared :: nat and ev :: "(int \<times> int) list"
  assume r: "\<not> r < 0" and nfull: "\<not> row_full b (nat r)"
  have "nat (r + 1) = Suc (nat r)"
    using r by (simp add: nat_add_distrib)
  then show "((b, r - 1, cleared, ev), (b, r, cleared, ev))
     \<in> measure (\<lambda>(b, r, cleared, ev).
        nat (r + 1) + length (filter (row_full b) [0..<nat (r + 1)]))"
    using r nfull by simp
qed

declare clear_rows.simps [simp del]

text \<open>
  \<open>clear_lines\<close>: the scan starts at \<open>ROWS - 1\<close>. The score table has five entries;
  reading \<open>score_tbl[cleared]\<close> with \<open>cleared > 4\<close> is out of bounds, undefined
  behaviour in C, and the model returns \<open>None\<close> there. \<open>score\<close>, \<open>lines\<close>, \<open>level\<close> and
  \<open>fall_ms\<close> are C \<open>int\<close>: each addition, subtraction and multiplication is wrapped
  into 32 bits. C's \<open>/\<close> truncates toward zero (\<open>sdiv\<close>). \<open>explosions\<close> is the sequence
  of \<open>spawn_explosion\<close> requests of the same scan.
\<close>

definition score_tbl :: "int list" where
  "score_tbl = [0, 40, 100, 300, 1200]"

definition clear_lines :: "Game \<Rightarrow> Game option" where
  "clear_lines g =
     (case clear_rows (board g) (int ROWS - 1) 0 [] of (b', cleared, ev) \<Rightarrow>
        if cleared \<noteq> 0 then
          if cleared < length score_tbl then
            let sc = wrap32 (score g + wrap32 (score_tbl ! cleared * wrap32 (level g + 1)));
                ln = wrap32 (lines g + int cleared);
                lv = ln sdiv 10
            in Some (g\<lparr>board := b', score := sc, lines := ln, level := lv,
                       fall_ms := imax MIN_SPEED_MS
                         (wrap32 (START_SPEED_MS - wrap32 (lv * SPEED_STEP_MS)))\<rparr>)
          else None
        else Some (g\<lparr>board := b'\<rparr>))"

definition explosions :: "Game \<Rightarrow> (int \<times> int) list" where
  "explosions g = snd (snd (clear_rows (board g) (int ROWS - 1) 0 []))"

section \<open>Spawn, hold, drops and reset\<close>

text \<open>
  \<open>spawn_piece\<close>, statement by statement. \<open>rk\<close> and \<open>rt\<close> are the two \<open>rand()\<close> results
  that \<open>new_bag_piece\<close> consumes.
\<close>

definition spawn_piece :: "Game \<Rightarrow> nat \<Rightarrow> nat \<Rightarrow> Game" where
  "spawn_piece g rk rt =
     (let g1 = g\<lparr>cur := nxt g\<rparr>;
          g2 = g1\<lparr>nxt := new_bag_piece rk rt\<rparr>;
          g3 = g2\<lparr>cur := (cur g2)\<lparr>p_x := int COLS div 2 - 2, p_y := 0\<rparr>\<rparr>;
          g4 = (if collide (board g3) (cur g3) (p_x (cur g3)) (p_y (cur g3))
                then g3\<lparr>game_over := True\<rparr> else g3)
      in g4\<lparr>can_hold := True\<rparr>)"

definition hold_piece :: "Game \<Rightarrow> nat \<Rightarrow> nat \<Rightarrow> Game" where
  "hold_piece g rk rt =
     (if \<not> can_hold g then g
      else
        (let g' =
           (if \<not> has_hold g
            then spawn_piece (g\<lparr>hold := cur g, has_hold := True\<rparr>) rk rt
            else
              (let tmp = hold g;
                   g1 = g\<lparr>hold := cur g\<rparr>;
                   g2 = g1\<lparr>cur := tmp\<rparr>;
                   g3 = g2\<lparr>cur := (cur g2)\<lparr>p_x := int COLS div 2 - 2, p_y := 0\<rparr>\<rparr>
               in if collide (board g3) (cur g3) (p_x (cur g3)) (p_y (cur g3))
                  then g3\<lparr>game_over := True\<rparr> else g3))
         in g'\<lparr>can_hold := False\<rparr>))"

text \<open>
  The loop of \<open>hard_drop\<close>, \<open>while(!collide(g, &g->cur, x, y+1)) g->cur.y++\<close>. It does not
  end for a piece whose mask has no set cell, so it is a partial function: \<open>None\<close> is
  "does not return".
\<close>

partial_function (option) drop_loop :: "Game \<Rightarrow> Game option" where
  "drop_loop g =
     (if \<not> collide (board g) (cur g) (p_x (cur g)) (p_y (cur g) + 1)
      then drop_loop (g\<lparr>cur := (cur g)\<lparr>p_y := p_y (cur g) + 1\<rparr>\<rparr>)
      else Some g)"

definition hard_drop :: "Game \<Rightarrow> nat \<Rightarrow> nat \<Rightarrow> Game option" where
  "hard_drop g rk rt =
     (case drop_loop g of None \<Rightarrow> None
      | Some g1 \<Rightarrow>
          (case clear_lines (lock_piece g1) of None \<Rightarrow> None
           | Some g2 \<Rightarrow> Some (spawn_piece g2 rk rt)))"

definition soft_step :: "Game \<Rightarrow> nat \<Rightarrow> nat \<Rightarrow> Game option" where
  "soft_step g rk rt =
     (if \<not> collide (board g) (cur g) (p_x (cur g)) (p_y (cur g) + 1)
      then Some (g\<lparr>cur := (cur g)\<lparr>p_y := p_y (cur g) + 1\<rparr>\<rparr>)
      else
        (case clear_lines (lock_piece g) of None \<Rightarrow> None
         | Some g2 \<Rightarrow> Some (spawn_piece g2 rk rt)))"

text \<open>The two move commands, written inline in the event loop of \<open>main\<close>.\<close>

definition move_left :: "Game \<Rightarrow> Game" where
  "move_left g =
     (if \<not> collide (board g) (cur g) (p_x (cur g) - 1) (p_y (cur g))
      then g\<lparr>cur := (cur g)\<lparr>p_x := p_x (cur g) - 1\<rparr>\<rparr> else g)"

definition move_right :: "Game \<Rightarrow> Game" where
  "move_right g =
     (if \<not> collide (board g) (cur g) (p_x (cur g) + 1) (p_y (cur g))
      then g\<lparr>cur := (cur g)\<lparr>p_x := p_x (cur g) + 1\<rparr>\<rparr> else g)"

text \<open>
  \<open>game_reset\<close>: everything is zeroed, then the fields are set; the four arguments are
  the \<open>rand()\<close> results of the two \<open>new_bag_piece\<close> calls. Its last call,
  \<open>particles_reset\<close>, writes the particle pool only, which is modelled on its own below.
\<close>

definition game_reset :: "nat \<Rightarrow> nat \<Rightarrow> nat \<Rightarrow> nat \<Rightarrow> Game" where
  "game_reset rk1 rt1 rk2 rt2 =
     \<lparr>board = (\<lambda>r c. zero_cell),
      cur = (new_bag_piece rk1 rt1)\<lparr>p_x := int COLS div 2 - 2, p_y := 0\<rparr>,
      nxt = new_bag_piece rk2 rt2,
      hold = zero_piece,
      has_hold = False, can_hold = True, game_over = False,
      score = 0, lines = 0, level = 0, fall_ms = START_SPEED_MS, fall_accum = 0\<rparr>"

text \<open>
  The commands that act on the game, as the event loop and the gravity loop of \<open>main\<close>
  dispatch them (a gravity step is a soft drop). A run of the engine applies a sequence
  of them in order; it is \<open>None\<close> when one of them does not return. The event loop
  skips the key commands while the game is over or paused, and the gravity loop does
  not test \<open>game_over\<close> between two steps of one frame: a run applies every command in
  every state, which covers both.
\<close>

datatype Command = MoveLeft | MoveRight | SoftDrop nat nat | HardDrop nat nat
  | Hold nat nat | RotateCW | RotateCCW | Restart nat nat nat nat

fun apply_command :: "Command \<Rightarrow> Game \<Rightarrow> Game option" where
  "apply_command MoveLeft g = Some (move_left g)"
| "apply_command MoveRight g = Some (move_right g)"
| "apply_command (SoftDrop rk rt) g = soft_step g rk rt"
| "apply_command (HardDrop rk rt) g = hard_drop g rk rt"
| "apply_command (Hold rk rt) g = Some (hold_piece g rk rt)"
| "apply_command RotateCW g = Some (attempt_rotate g True)"
| "apply_command RotateCCW g = Some (attempt_rotate g False)"
| "apply_command (Restart rk1 rt1 rk2 rt2) g = Some (game_reset rk1 rt1 rk2 rt2)"

fun run :: "Command list \<Rightarrow> Game \<Rightarrow> Game option" where
  "run [] g = Some g"
| "run (cmd # cmds) g =
     (case apply_command cmd g of None \<Rightarrow> None | Some g' \<Rightarrow> run cmds g')"

section \<open>Particle system\<close>

text \<open>
  A particle is its liveness flag and its other fields (position, velocity, age,
  lifespan, colour). Those are floats computed from \<open>rand()\<close> with float arithmetic,
  which the model does not interpret: they are one value of an arbitrary type \<open>'v\<close>,
  and the functions below take what the float code computes as parameters.
\<close>

record 'v Particle =
  alive :: bool
  body :: 'v

type_synonym 'v Pool = "nat \<Rightarrow> 'v Particle"

definition particles_reset :: "'v \<Rightarrow> 'v Pool" where
  "particles_reset z = (\<lambda>j. \<lparr>alive = False, body = z\<rparr>)"

text \<open>
  The inner loop of \<open>spawn_explosion\<close>: the scan over the slots \<open>j\<close> for the first dead
  one, which is written and ends the scan (\<open>break\<close>); \<open>v\<close> is the fields computed for it.
\<close>

fun spawn_scan :: "'v Pool \<Rightarrow> 'v \<Rightarrow> nat list \<Rightarrow> 'v Pool" where
  "spawn_scan ps v [] = ps"
| "spawn_scan ps v (j # js) =
     (if \<not> alive (ps j) then ps(j := \<lparr>alive = True, body = v\<rparr>)
      else spawn_scan ps v js)"

text \<open>The outer loop over the requests \<open>i\<close>; \<open>mk i\<close> is the fields of request \<open>i\<close>.\<close>

fun spawn_loop :: "'v Pool \<Rightarrow> (nat \<Rightarrow> 'v) \<Rightarrow> nat list \<Rightarrow> 'v Pool" where
  "spawn_loop ps mk [] = ps"
| "spawn_loop ps mk (i # is) = spawn_loop (spawn_scan ps (mk i) [0..<MAX_PARTICLES]) mk is"

text \<open>\<open>count = 120 + rand() % 80\<close>, with \<open>rc\<close> the result of that \<open>rand()\<close>.\<close>

definition explosion_count :: "nat \<Rightarrow> nat" where
  "explosion_count rc = 120 + rc mod 80"

definition spawn_explosion :: "'v Pool \<Rightarrow> nat \<Rightarrow> (nat \<Rightarrow> 'v) \<Rightarrow> 'v Pool" where
  "spawn_explosion ps rc mk = spawn_loop ps mk [0..<explosion_count rc]"

text \<open>
  \<open>particles_update\<close>: \<open>age\<close> is \<open>life += dt\<close>, \<open>expired\<close> is \<open>life >= maxlife\<close> and
  \<open>integrate\<close> is the gravity, drag and position update, all for the \<open>dt\<close> of the call.
\<close>

fun update_loop :: "('v \<Rightarrow> 'v) \<Rightarrow> ('v \<Rightarrow> bool) \<Rightarrow> ('v \<Rightarrow> 'v) \<Rightarrow> 'v Pool \<Rightarrow> nat list \<Rightarrow> 'v Pool" where
  "update_loop age expired integrate ps [] = ps"
| "update_loop age expired integrate ps (i # is) =
     (if alive (ps i) then
        (let v = age (body (ps i)) in
         if expired v
         then update_loop age expired integrate (ps(i := \<lparr>alive = False, body = v\<rparr>)) is
         else update_loop age expired integrate (ps(i := \<lparr>alive = True, body = integrate v\<rparr>)) is)
      else update_loop age expired integrate ps is)"

definition particles_update :: "('v \<Rightarrow> 'v) \<Rightarrow> ('v \<Rightarrow> bool) \<Rightarrow> ('v \<Rightarrow> 'v) \<Rightarrow> 'v Pool \<Rightarrow> 'v Pool" where
  "particles_update age expired integrate ps =
     update_loop age expired integrate ps [0..<MAX_PARTICLES]"

definition alive_count :: "'v Pool \<Rightarrow> nat" where
  "alive_count ps = length (filter (\<lambda>j. alive (ps j)) [0..<MAX_PARTICLES])"

text \<open>The two operations on the pool, and a run of them in order.\<close>

datatype 'v PoolOp = Explode nat "nat \<Rightarrow> 'v" | Update "'v \<Rightarrow> 'v" "'v \<Rightarrow> bool" "'v \<Rightarrow> 'v"

fun pool_step :: "'v PoolOp \<Rightarrow> 'v Pool \<Rightarrow> 'v Pool" where
  "pool_step (Explode rc mk) ps = spawn_explosion ps rc mk"
| "pool_step (Update age expired integrate) ps = particles_update age expired integrate ps"

fun pool_run :: "'v PoolOp list \<Rightarrow> 'v Pool \<Rightarrow> 'v Pool" where
  "pool_run [] ps = ps"
| "pool_run (po # pos) ps = pool_run pos (pool_step po ps)"

section \<open>Predicates of the specification\<close>

text \<open>A row, taken on its own, is full when each of its \<open>COLS\<close> cells is filled.\<close>

definition full_row :: "(nat \<Rightarrow> Cell) \<Rightarrow> bool" where
  "full_row row = list_all (\<lambda>c. filled (row c)) [0..<COLS]"

text \<open>The all-empty row that \<open>memset(g->board[0], 0, ...)\<close> writes.\<close>

definition zero_row :: "nat \<Rightarrow> Cell" where
  "zero_row = (\<lambda>c. zero_cell)"

text \<open>
  A pending placement as the specification describes it for spawn checks: some set
  mask cell is above the board top (absolute row below 0), and every set cell that is
  not above the top is on an empty cell inside the board.
\<close>

definition pending_above_top :: "Board \<Rightarrow> Piece \<Rightarrow> int \<Rightarrow> int \<Rightarrow> bool" where
  "pending_above_top b p nx ny =
     (list_ex (\<lambda>r. list_ex (\<lambda>c. p_m p r c \<noteq> 0 \<and> ny + int r < 0) [0..<4]) [0..<4] \<and>
      list_all (\<lambda>r. list_all (\<lambda>c. p_m p r c = 0 \<or> ny + int r < 0 \<or>
          (0 \<le> nx + int c \<and> nx + int c < int COLS \<and> 0 \<le> ny + int r \<and> ny + int r < int ROWS \<and>
           \<not> filled (b (nat (ny + int r)) (nat (nx + int c))))) [0..<4]) [0..<4])"

text \<open>
  What the scan of rows \<open>0 .. m-1\<close> has achieved when it returns: with \<open>k\<close> the number
  of full rows among them, the rows of the result are \<open>k\<close> empty rows followed by the
  rows that were not full, in their order; the counter and the number of explosion
  requests grew by \<open>k\<close>; the rows from \<open>m\<close> on are untouched.
\<close>

definition rows_ok :: "Board \<Rightarrow> nat \<Rightarrow> nat \<Rightarrow> nat \<Rightarrow> Board \<Rightarrow> nat \<Rightarrow> nat \<Rightarrow> bool" where
  "rows_ok b m n l b' n' l' =
    (let k = length (filter full_row (map b [0..<m])) in
     map b' [0..<m] = replicate k zero_row @ filter (\<lambda>row. \<not> full_row row) (map b [0..<m]) \<and>
     n' = n + k \<and> (\<forall>i \<ge> m. b' i = b i) \<and> l' = l + k)"

text \<open>A board with two stacked full rows at the bottom and one filled cell above them.\<close>

definition stacked_board :: Board where
  "stacked_board = (\<lambda>r c. if r = 19 \<or> r = 18 \<or> (r = 17 \<and> c = 0)
     then zero_cell\<lparr>filled := True\<rparr> else zero_cell)"

text \<open>
  Mask cell \<open>(r, c)\<close> of piece \<open>p\<close> is set and lands on the board cell \<open>(i, j)\<close>.
\<close>

definition lock_target :: "Piece \<Rightarrow> nat \<Rightarrow> nat \<Rightarrow> nat \<Rightarrow> nat \<Rightarrow> bool" where
  "lock_target p r c i j =
     (p_m p r c \<noteq> 0 \<and> int i = p_y p + int r \<and> int j = p_x p + int c \<and> i < ROWS \<and> j < COLS)"

text \<open>The three field writes of \<open>lock_piece\<close> to one board cell.\<close>

definition locked_cell :: "Piece \<Rightarrow> Cell \<Rightarrow> Cell" where
  "locked_cell p cl = cl\<lparr>filled := True, cell_type := p_type p, cell_tint := p_tint p\<rparr>"

text \<open>
  The number of filled cells of the board, the number of set cells of a piece's mask,
  "the piece is fully within bounds" (every set cell has its absolute coordinate on the
  board), and the number of set cells that land on an empty board cell.
\<close>

definition filled_count :: "Board \<Rightarrow> nat" where
  "filled_count b = length (filter (\<lambda>(i, j). filled (b i j)) (List.product [0..<ROWS] [0..<COLS]))"

definition mask_count :: "Piece \<Rightarrow> nat" where
  "mask_count p = length (filter (\<lambda>(r, c). p_m p r c \<noteq> 0) (List.product [0..<4] [0..<4]))"

definition within_bounds :: "Piece \<Rightarrow> bool" where
  "within_bounds p = list_all (\<lambda>(r, c). p_m p r c = 0 \<or>
      (0 \<le> p_x p + int c \<and> p_x p + int c < int COLS \<and> 0 \<le> p_y p + int r \<and> p_y p + int r < int ROWS))
    (List.product [0..<4] [0..<4])"

definition on_empty_count :: "Board \<Rightarrow> Piece \<Rightarrow> nat" where
  "on_empty_count b p = length (filter (\<lambda>(r, c). p_m p r c \<noteq> 0 \<and>
      \<not> filled (b (nat (p_y p + int r)) (nat (p_x p + int c)))) (List.product [0..<4] [0..<4]))"

text \<open>
  The O piece at its spawn position on a board whose only filled cell, row 0 and
  column 3, lies under one of the piece's cells.
\<close>

definition overlap_game :: Game where
  "overlap_game = (game_reset 1 0 0 0)\<lparr>board :=
     (\<lambda>r c. if r = 0 \<and> c = 3 then zero_cell\<lparr>filled := True\<rparr> else zero_cell)\<rparr>"

text \<open>A mask with at least one set cell, as every shape of \<open>SHAPES\<close> has.\<close>

definition mask_ok :: "Piece \<Rightarrow> bool" where
  "mask_ok p = list_ex (\<lambda>r. list_ex (\<lambda>c. p_m p r c \<noteq> 0) [0..<4]) [0..<4]"

text \<open>The four scoring fields hold values of a 32-bit \<open>int\<close>.\<close>

definition c_ints :: "Game \<Rightarrow> bool" where
  "c_ints g = (int32 (score g) \<and> int32 (lines g) \<and> int32 (level g) \<and> int32 (fall_ms g))"



text \<open>
  The invariant of the engine: the board holds no full row, the current piece, the
  lookahead piece and the held piece (once there is one) have a set mask cell, and the
  scoring fields hold 32-bit values.
\<close>

definition engine_inv :: "Game \<Rightarrow> bool" where
  "engine_inv g =
     (list_all (\<lambda>r. \<not> row_full (board g) r) [0..<ROWS] \<and>
      mask_ok (cur g) \<and> mask_ok (nxt g) \<and> (\<not> has_hold g \<or> mask_ok (hold g)) \<and> c_ints g)"

text \<open>
  The commands that call \<open>spawn_piece\<close>: the two drops when they lock, and Hold with
  an empty slot. \<open>is_restart\<close> singles out Restart, whose \<open>game_reset\<close> builds a new
  game with its first piece.
\<close>

fun spawns :: "Command \<Rightarrow> Game \<Rightarrow> bool" where
  "spawns (SoftDrop rk rt) g = collide (board g) (cur g) (p_x (cur g)) (p_y (cur g) + 1)"
| "spawns (HardDrop rk rt) g = True"
| "spawns (Hold rk rt) g = (can_hold g \<and> \<not> has_hold g)"
| "spawns (Restart rk1 rt1 rk2 rt2) g = False"
| "spawns MoveLeft g = False"
| "spawns MoveRight g = False"
| "spawns RotateCW g = False"
| "spawns RotateCCW g = False"

fun is_restart :: "Command \<Rightarrow> bool" where
  "is_restart (Restart rk1 rt1 rk2 rt2) = True"
| "is_restart MoveLeft = False"
| "is_restart MoveRight = False"
| "is_restart (SoftDrop rk rt) = False"
| "is_restart (HardDrop rk rt) = False"
| "is_restart (Hold rk rt) = False"
| "is_restart RotateCW = False"
| "is_restart RotateCCW = False"

text \<open>The position every spawned or swapped-in piece is given: column \<open>COLS/2 - 2\<close>, row 0.\<close>

definition at_spawn :: "Piece \<Rightarrow> Piece" where
  "at_spawn p = p\<lparr>p_x := int COLS div 2 - 2, p_y := 0\<rparr>"

section \<open>Collision detector: results\<close>

lemma collide_cols_iff:
  "collide_cols b p nx ny r cs = (\<exists>c \<in> set cs. cell_blocked b p nx ny r c)"
  by (induction cs) (auto simp: cell_blocked_def Let_def)

lemma collide_rows_iff:
  "collide_rows b p nx ny rs = (\<exists>r \<in> set rs. \<exists>c < 4. cell_blocked b p nx ny r c)"
  by (induction rs) (auto simp: collide_cols_iff)

lemma collide_iff:
  "collide b p nx ny = (\<exists>r < 4. \<exists>c < 4. cell_blocked b p nx ny r c)"
  by (auto simp: collide_def collide_rows_iff)

text \<open>
  C1. For every board, piece and candidate position, \<open>collide\<close> is true exactly when
  some set cell \<open>(r, c)\<close> of the 4x4 mask has its absolute coordinate
  \<open>(nx + c, ny + r)\<close> outside \<open>[0, COLS) x [0, ROWS)\<close> or on a filled board cell, and false
  otherwise. The function takes the board and the piece and returns only the truth
  value: it has no effect on either.
\<close>

theorem collide_spec:
  "COLS = 10 \<and> ROWS = 20 \<and>
   collide b p nx ny =
     (\<exists>r < 4. \<exists>c < 4. p_m p r c \<noteq> 0 \<and>
        (nx + int c < 0 \<or> nx + int c \<ge> int COLS \<or> ny + int r < 0 \<or> ny + int r \<ge> int ROWS \<or>
         filled (b (nat (ny + int r)) (nat (nx + int c)))))"
  by (simp add: collide_iff cell_blocked_def COLS_def ROWS_def)

theorem collide_spec_witness:
  "collide (\<lambda>r c. zero_cell) (piece_from_k 1 0) 3 0 = False \<and>
   collide (\<lambda>r c. zero_cell) (piece_from_k 1 0) 9 0 = True \<and>
   collide (\<lambda>r c. zero_cell\<lparr>filled := True\<rparr>) (piece_from_k 1 0) 3 0 = True"
proof -
  have a: "\<not> collide (\<lambda>r c. zero_cell) (piece_from_k 1 0) 3 0"
    unfolding collide_spec [THEN conjunct2, THEN conjunct2]
    by (auto simp: piece_from_k_def zero_cell_def COLS_def ROWS_def)
  have b: "collide (\<lambda>r c. zero_cell) (piece_from_k 1 0) 9 0"
    unfolding collide_spec [THEN conjunct2, THEN conjunct2]
    by (auto simp: piece_from_k_def SHAPES_def COLS_def intro!: exI [of _ 0] exI [of _ 1])
  have c: "collide (\<lambda>r c. zero_cell\<lparr>filled := True\<rparr>) (piece_from_k 1 0) 3 0"
    unfolding collide_spec [THEN conjunct2, THEN conjunct2]
    by (auto simp: piece_from_k_def SHAPES_def intro!: exI [of _ 0])
  from a b c show ?thesis by simp
qed

lemma four_cases: "(i::nat) < 4 \<Longrightarrow> i = 0 \<or> i = 1 \<or> i = 2 \<or> i = 3"
  by arith

lemma upt4: "[0..<4] = [0, 1, 2, 3::nat]"
  by (simp add: upt_rec)

text \<open>
  C2 (as stated it fails). A pending placement with a set mask cell above the board
  top and every other set cell on an empty cell inside the board is not permitted: the
  O piece on the empty board at column 3, row \<open>-1\<close> is such a placement, and \<open>collide\<close>
  returns true for it.
\<close>

theorem collide_above_top_counterexample:
  "pending_above_top (\<lambda>r c. zero_cell) (piece_from_k 1 0) 3 (- 1) \<and>
   collide (\<lambda>r c. zero_cell) (piece_from_k 1 0) 3 (- 1)"
  by (simp add: pending_above_top_def collide_def upt4 piece_from_k_def SHAPES_def
      zero_cell_def COLS_def ROWS_def)

text \<open>
  C2 (amended). The guard of \<open>collide\<close> tests \<open>y < 0\<close> with the other three sides: a
  placement in which any set mask cell has an absolute row below 0 collides, for a
  pending piece as for any other.
\<close>

theorem collide_above_top:
  "r < 4 \<Longrightarrow> c < 4 \<Longrightarrow> p_m p r c \<noteq> 0 \<Longrightarrow> ny + int r < 0 \<Longrightarrow> collide b p nx ny"
  by (auto simp: collide_iff cell_blocked_def)

theorem collide_above_top_witness:
  "collide (\<lambda>r c. zero_cell) (piece_from_k 2 0) 3 (- 1)"
  using collide_above_top [of 0 1 "piece_from_k 2 0" "- 1" "\<lambda>r c. zero_cell" 3]
  by (simp add: piece_from_k_def SHAPES_def)

section \<open>Rotation: results\<close>

lemma rotate_cw_index: "r < 4 \<Longrightarrow> c < 4 \<Longrightarrow> p_m (rotate_cw p) c (3 - r) = p_m p r c"
  using four_cases [of r] four_cases [of c]
  by (auto simp: rotate_cw_def upt4)

lemma rotate_ccw_index: "r < 4 \<Longrightarrow> c < 4 \<Longrightarrow> p_m (rotate_ccw p) (3 - c) r = p_m p r c"
  using four_cases [of r] four_cases [of c]
  by (auto simp: rotate_ccw_def upt4)

lemma try_kicks_find:
  "try_kicks g t ks =
     (case find (\<lambda>(dx, dy). \<not> collide (board g) t (p_x t + dx) (p_y t + dy)) ks of
        None \<Rightarrow> g
      | Some (dx, dy) \<Rightarrow> g\<lparr>cur := t\<lparr>p_x := p_x t + dx, p_y := p_y t + dy\<rparr>\<rparr>)"
  by (induction ks) (auto simp: case_prod_unfold)

text \<open>
  C3. Both rotations are the fixed index transposition of the 4x4 mask
  (\<open>new[c][3-r] = old[r][c]\<close> clockwise, \<open>new[3-c][r] = old[r][c]\<close> counter-clockwise) and
  change nothing but the mask. \<open>attempt_rotate\<close> takes the rotated piece \<open>t\<close> and the
  first of the offsets \<open>(0,0), (+1,0), (-1,0), (0,-1), (0,+1)\<close>, in that order, at which
  \<open>t\<close> does not collide: the current piece becomes \<open>t\<close> moved by that offset, mask and
  position in one assignment. If \<open>t\<close> collides at all five, the game (the current
  piece's mask and position included) is returned unchanged.
\<close>

theorem attempt_rotate_spec:
  "(\<forall>r < 4. \<forall>c < 4. p_m (rotate_cw p) c (3 - r) = p_m p r c) \<and>
   (\<forall>r < 4. \<forall>c < 4. p_m (rotate_ccw p) (3 - c) r = p_m p r c) \<and>
   rotate_cw p = p\<lparr>p_m := p_m (rotate_cw p)\<rparr> \<and>
   rotate_ccw p = p\<lparr>p_m := p_m (rotate_ccw p)\<rparr> \<and>
   attempt_rotate g cw =
     (let t = (if cw then rotate_cw (cur g) else rotate_ccw (cur g)) in
      case find (\<lambda>(dx, dy). \<not> collide (board g) t (p_x t + dx) (p_y t + dy))
             [(0, 0), (1, 0), (- 1, 0), (0, - 1), (0, 1)] of
        None \<Rightarrow> g
      | Some (dx, dy) \<Rightarrow> g\<lparr>cur := t\<lparr>p_x := p_x t + dx, p_y := p_y t + dy\<rparr>\<rparr>)"
proof -
  have "attempt_rotate g cw =
     (let t = (if cw then rotate_cw (cur g) else rotate_ccw (cur g)) in
      case find (\<lambda>(dx, dy). \<not> collide (board g) t (p_x t + dx) (p_y t + dy))
             [(0, 0), (1, 0), (- 1, 0), (0, - 1), (0, 1)] of
        None \<Rightarrow> g
      | Some (dx, dy) \<Rightarrow> g\<lparr>cur := t\<lparr>p_x := p_x t + dx, p_y := p_y t + dy\<rparr>\<rparr>)"
    unfolding attempt_rotate_def kicks_def Let_def
    by (rule try_kicks_find)
  moreover have "rotate_cw p = p\<lparr>p_m := p_m (rotate_cw p)\<rparr>"
    by (simp add: rotate_cw_def)
  moreover have "rotate_ccw p = p\<lparr>p_m := p_m (rotate_ccw p)\<rparr>"
    by (simp add: rotate_ccw_def)
  moreover have "\<forall>r < 4. \<forall>c < 4. p_m (rotate_cw p) c (3 - r) = p_m p r c"
    by (simp add: rotate_cw_index)
  moreover have "\<forall>r < 4. \<forall>c < 4. p_m (rotate_ccw p) (3 - c) r = p_m p r c"
    by (simp add: rotate_ccw_index)
  ultimately show ?thesis
    by (intro conjI)
qed

text \<open>
  On the empty board the I piece at its spawn position rotates clockwise in place
  (offset \<open>(0,0)\<close>); on a board with every cell filled all five offsets collide and the
  game is unchanged.
\<close>

theorem attempt_rotate_spec_witness:
  "attempt_rotate (game_reset 0 0 0 0) True =
     (game_reset 0 0 0 0)\<lparr>cur := (rotate_cw (cur (game_reset 0 0 0 0)))\<lparr>p_x := 3, p_y := 0\<rparr>\<rparr> \<and>
   attempt_rotate ((game_reset 0 0 0 0)\<lparr>board := (\<lambda>r c. zero_cell\<lparr>filled := True\<rparr>)\<rparr>) False =
     (game_reset 0 0 0 0)\<lparr>board := (\<lambda>r c. zero_cell\<lparr>filled := True\<rparr>)\<rparr>"
proof -
  have a: "attempt_rotate (game_reset 0 0 0 0) True =
     (game_reset 0 0 0 0)\<lparr>cur := (rotate_cw (cur (game_reset 0 0 0 0)))\<lparr>p_x := 3, p_y := 0\<rparr>\<rparr>"
    using attempt_rotate_spec [of "cur (game_reset 0 0 0 0)" "game_reset 0 0 0 0" True]
    by (simp add: game_reset_def new_bag_piece_def piece_from_k_def SHAPES_def collide_def upt4
        rotate_cw_def zero_cell_def COLS_def ROWS_def)
  have b: "attempt_rotate ((game_reset 0 0 0 0)\<lparr>board := (\<lambda>r c. zero_cell\<lparr>filled := True\<rparr>)\<rparr>) False =
     (game_reset 0 0 0 0)\<lparr>board := (\<lambda>r c. zero_cell\<lparr>filled := True\<rparr>)\<rparr>"
    using attempt_rotate_spec [of "cur (game_reset 0 0 0 0)"
        "(game_reset 0 0 0 0)\<lparr>board := (\<lambda>r c. zero_cell\<lparr>filled := True\<rparr>)\<rparr>" False]
    by (simp add: game_reset_def new_bag_piece_def piece_from_k_def SHAPES_def collide_def upt4
        rotate_ccw_def zero_cell_def COLS_def ROWS_def)
  from a b show ?thesis by simp
qed

section \<open>Line clear and scoring: results\<close>

lemma row_full_from_iff: "row_full_from b r cs = list_all (\<lambda>c. filled (b r c)) cs"
  by (induction cs) auto

lemma row_full_eq: "row_full b r = full_row (b r)"
  by (simp add: row_full_def full_row_def row_full_from_iff)

lemma pull_rows_apply: "pull_rows b k i = (if 0 < i \<and> i \<le> k then b (i - 1) else b i)"
proof (induction b k arbitrary: i rule: pull_rows.induct)
  case (1 b)
  show ?case by simp
next
  case (2 b k)
  show ?case
  proof (cases "i = Suc k")
    case True
    then show ?thesis by (simp add: "2.IH")
  next
    case False
    then show ?thesis by (simp add: "2.IH") arith
  qed
qed

lemma pull_down_apply:
  "pull_down b r i = (if i = 0 then zero_row else if i \<le> r then b (i - 1) else b i)"
  by (simp add: pull_down_def pull_rows_apply zero_row_def)

lemma zero_row_not_full: "\<not> full_row zero_row"
  by (simp add: full_row_def zero_row_def zero_cell_def COLS_def upt_rec)

lemma rows_pull_down: "map (pull_down b m) [0..<Suc m] = zero_row # map b [0..<m]"
proof -
  have a: "[0..<Suc m] = 0 # map Suc [0..<m]"
    by (simp add: upt_conv_Cons map_Suc_upt del: upt_Suc)
  have b0: "pull_down b m 0 = zero_row"
    by (simp add: pull_down_apply)
  have c: "map (\<lambda>i. pull_down b m (Suc i)) [0..<m] = map b [0..<m]"
    by (rule map_cong) (auto simp: pull_down_apply)
  show ?thesis
    unfolding a by (simp only: list.map map_map o_def b0 c)
qed

lemma clear_rows_result:
  "- 1 \<le> r \<Longrightarrow> clear_rows b r n ev = (b', n', ev') \<Longrightarrow>
   rows_ok b (nat (r + 1)) n (length ev) b' n' (length ev')"
proof (induction b r n ev arbitrary: b' n' ev' rule: clear_rows.induct)
  case (1 b r n ev)
  show ?case
  proof (cases "r < 0")
    case True
    with "1.prems" show ?thesis
      by (simp add: clear_rows.simps [of b r] rows_ok_def)
  next
    case nonneg: False
    define m where "m = nat r"
    have m: "nat (r + 1) = Suc m" "nat (r - 1 + 1) = m"
      using nonneg by (simp_all add: m_def nat_add_distrib)
    show ?thesis
    proof (cases "row_full b (nat r)")
      case True
      then have fm: "full_row (b m)" by (simp add: row_full_eq m_def)
      from "1.prems" nonneg True
      have "clear_rows (pull_down b (nat r)) r (n + 1)
          (ev @ [(TILE * int COLS div 2, TILE * r + TILE div 2)]) = (b', n', ev')"
        by (simp add: clear_rows.simps [of b r])
      from "1.IH"(1) [OF nonneg True "1.prems"(1) this]
      have ih: "rows_ok (pull_down b m) (Suc m) (n + 1) (length ev + 1) b' n' (length ev')"
        by (simp add: m m_def)
      have "\<forall>i \<ge> Suc m. pull_down b m i = b i"
        by (simp add: pull_down_apply)
      with ih fm show ?thesis
        unfolding m rows_ok_def Let_def rows_pull_down
        by (simp add: zero_row_not_full replicate_app_Cons_same)
    next
      case False
      then have fm: "\<not> full_row (b m)" by (simp add: row_full_eq m_def)
      from "1.prems" nonneg False
      have "clear_rows b (r - 1) n ev = (b', n', ev')"
        by (simp add: clear_rows.simps [of b r])
      from "1.IH"(2) [OF nonneg False _ this] nonneg
      have ih: "rows_ok b m n (length ev) b' n' (length ev')"
        by (simp add: m_def)
      then have "b' m = b m" by (simp add: rows_ok_def Let_def)
      with ih fm show ?thesis
        unfolding m rows_ok_def Let_def
        by simp
    qed
  qed
qed

lemma full_count_eq:
  "length (filter full_row (map b [0..<m])) = length (filter (row_full b) [0..<m])"
  by (simp add: filter_map o_def row_full_eq [abs_def])

lemma clear_rows_top:
  assumes "clear_rows b (int ROWS - 1) 0 [] = (b', cleared, ev)"
  shows "rows_ok b ROWS 0 0 b' cleared (length ev)"
  using clear_rows_result [OF _ assms] by (simp add: ROWS_def)

lemma clear_rows_count:
  assumes "clear_rows b (int ROWS - 1) 0 [] = (b', cleared, ev)"
  shows "cleared = length (filter (row_full b) [0..<ROWS])"
proof -
  have "row_full b = full_row \<circ> b"
    by (simp add: fun_eq_iff row_full_eq)
  then show ?thesis
    using clear_rows_top [OF assms] by (simp add: rows_ok_def Let_def)
qed

lemma row_full_iff: "row_full b r = (\<forall>c < COLS. filled (b r c))"
  by (auto simp: row_full_eq full_row_def list_all_iff)

lemma clear_lines_board:
  "clear_rows (board g) (int ROWS - 1) 0 [] = (b', cleared, ev) \<Longrightarrow>
   clear_lines g = Some g' \<Longrightarrow> board g' = b'"
  by (auto simp: clear_lines_def Let_def split: if_splits)

text \<open>
  C4. The scan of \<open>clear_lines\<close> starts at row \<open>ROWS - 1\<close> and ends below row 0. At a full
  row (every one of the \<open>COLS\<close> cells filled) it counts one more cleared row, makes one
  more explosion request, pulls the rows above down by one (row \<open>i\<close> gets row \<open>i - 1\<close>
  for \<open>i\<close> from \<open>r\<close> down to 1, row 0 becomes empty) and looks at the same index again; at
  a row that is not full it moves up. For every board, when the scan returns: the rows
  of the board are \<open>cleared\<close> empty rows followed by the rows of the old board that were
  not full, in their old order; no row is full; nothing outside the board is written;
  \<open>cleared\<close> is the number of full rows of the old board, at most \<open>ROWS\<close>, and the number
  of explosion requests. \<open>clear_lines\<close> returns whenever \<open>cleared\<close> is at most 4 (the
  score table has five entries), and whenever it returns its board is that board.
\<close>

theorem clear_lines_rows:
  assumes "clear_rows (board g) (int ROWS - 1) 0 [] = (b', cleared, ev)"
  shows "(\<forall>b r n e. r < 0 \<longrightarrow> clear_rows b r n e = (b, n, e)) \<and>
    (\<forall>b r n e. 0 \<le> r \<and> row_full b (nat r) \<longrightarrow>
       clear_rows b r n e =
       clear_rows (pull_down b (nat r)) r (n + 1) (e @ [(TILE * int COLS div 2, TILE * r + TILE div 2)])) \<and>
    (\<forall>b r n e. 0 \<le> r \<and> \<not> row_full b (nat r) \<longrightarrow>
       clear_rows b r n e = clear_rows b (r - 1) n e) \<and>
    (\<forall>b r. row_full b r = (\<forall>c < COLS. filled (b r c))) \<and>
    (\<forall>b k i. pull_down b k i = (if i = 0 then (\<lambda>c. zero_cell) else if i \<le> k then b (i - 1) else b i)) \<and>
    (\<forall>g'. clear_lines g = Some g' \<longrightarrow> board g' = b') \<and>
    (cleared \<le> 4 \<longrightarrow> (\<exists>g'. clear_lines g = Some g' \<and> board g' = b')) \<and>
    map b' [0..<ROWS] =
      replicate cleared (\<lambda>c. zero_cell) @ filter (\<lambda>row. \<not> full_row row) (map (board g) [0..<ROWS]) \<and>
    (\<forall>r < ROWS. \<not> row_full b' r) \<and>
    (\<forall>r \<ge> ROWS. b' r = board g r) \<and>
    cleared = length (filter (row_full (board g)) [0..<ROWS]) \<and>
    cleared \<le> ROWS \<and>
    length ev = cleared"
proof -
  have ok: "rows_ok (board g) ROWS 0 0 b' cleared (length ev)"
    by (rule clear_rows_top [OF assms])
  have rows: "map b' [0..<ROWS] =
      replicate cleared zero_row @ filter (\<lambda>row. \<not> full_row row) (map (board g) [0..<ROWS])"
    using ok by (simp add: rows_ok_def Let_def)
  have "row_full (board g) = full_row \<circ> board g"
    by (simp add: fun_eq_iff row_full_eq)
  then have cnt: "cleared = length (filter (row_full (board g)) [0..<ROWS])"
    using ok by (simp add: rows_ok_def Let_def)
  have le: "cleared \<le> ROWS"
    unfolding cnt using length_filter_le [of "row_full (board g)" "[0..<ROWS]"] by simp
  have nofull: "\<forall>r < ROWS. \<not> row_full b' r"
  proof (intro allI impI)
    fix r assume "r < ROWS"
    then have "b' r \<in> set (map b' [0..<ROWS])" by simp
    then have "b' r \<in> set (replicate cleared zero_row) \<union>
        set (filter (\<lambda>row. \<not> full_row row) (map (board g) [0..<ROWS]))"
      unfolding rows by simp
    then have "\<not> full_row (b' r)"
      using zero_row_not_full by auto
    then show "\<not> row_full b' r" by (simp add: row_full_eq)
  qed
  have above: "\<forall>r \<ge> ROWS. b' r = board g r"
    using ok by (simp add: rows_ok_def Let_def)
  have ev: "length ev = cleared"
    using ok by (simp add: rows_ok_def Let_def)
  have s1: "\<forall>b r n e. r < 0 \<longrightarrow> clear_rows b r n e = (b, n, e)"
    by (simp add: clear_rows.simps)
  have s2: "\<forall>b r n e. 0 \<le> r \<and> row_full b (nat r) \<longrightarrow>
       clear_rows b r n e =
       clear_rows (pull_down b (nat r)) r (n + 1) (e @ [(TILE * int COLS div 2, TILE * r + TILE div 2)])"
    by (auto simp: clear_rows.simps [of _ _ _ "_ :: (int \<times> int) list"])
  have s3: "\<forall>b r n e. 0 \<le> r \<and> \<not> row_full b (nat r) \<longrightarrow>
       clear_rows b r n e = clear_rows b (r - 1) n e"
    by (auto simp: clear_rows.simps [of _ _ _ "_ :: (int \<times> int) list"])
  have s4: "\<forall>b r. row_full b r = (\<forall>c < COLS. filled (b r c))"
    by (simp add: row_full_iff)
  have s5: "\<forall>b k i. pull_down b k i =
      (if i = 0 then (\<lambda>c. zero_cell) else if i \<le> k then b (i - 1) else b i)"
    by (simp add: pull_down_apply zero_row_def)
  have s6: "\<forall>g'. clear_lines g = Some g' \<longrightarrow> board g' = b'"
    using clear_lines_board [OF assms] by blast
  have s7: "cleared \<le> 4 \<longrightarrow> (\<exists>g'. clear_lines g = Some g' \<and> board g' = b')"
    using assms by (auto simp: clear_lines_def score_tbl_def Let_def)
  from s1 s2 s3 s4 s5 s6 s7 rows nofull above cnt le ev show ?thesis
    unfolding zero_row_def by (intro conjI)
qed

theorem clear_lines_rows_witness:
  "fst (snd (clear_rows stacked_board (int ROWS - 1) 0 [])) = 2 \<and>
   length (snd (snd (clear_rows stacked_board (int ROWS - 1) 0 []))) = 2 \<and>
   \<not> row_full (fst (clear_rows stacked_board (int ROWS - 1) 0 [])) 19 \<and>
   map (fst (clear_rows stacked_board (int ROWS - 1) 0 [])) [0..<ROWS] =
     replicate 2 (\<lambda>c. zero_cell) @ map stacked_board [0..<18] \<and>
   map_option (\<lambda>g'. map (board g') [0..<ROWS])
       (clear_lines ((game_reset 0 0 0 0)\<lparr>board := stacked_board\<rparr>)) =
     Some (replicate 2 (\<lambda>c. zero_cell) @ map stacked_board [0..<18])"
proof -
  define g where "g = (game_reset 0 0 0 0)\<lparr>board := stacked_board\<rparr>"
  obtain b' cleared ev where
    h: "clear_rows (board g) (int ROWS - 1) 0 [] = (b', cleared, ev)"
    by (cases "clear_rows (board g) (int ROWS - 1) 0 []") auto
  have bg: "board g = stacked_board" by (simp add: g_def)
  have n: "length (filter (row_full stacked_board) [0..<ROWS]) = 2"
    by (simp add: ROWS_def COLS_def row_full_def stacked_board_def zero_cell_def upt_rec)
  have f: "filter (\<lambda>row. \<not> full_row row) (map stacked_board [0..<ROWS]) = map stacked_board [0..<18]"
    by (simp add: ROWS_def COLS_def full_row_def stacked_board_def zero_cell_def upt_rec)
  note t = clear_lines_rows [OF h]
  from t have c: "cleared = length (filter (row_full (board g)) [0..<ROWS])"
    by (elim conjE)
  from t have e: "length ev = cleared"
    by (elim conjE)
  from t have nf: "\<forall>r < ROWS. \<not> row_full b' r"
    by (elim conjE)
  from t have rows: "map b' [0..<ROWS] =
      replicate cleared (\<lambda>c. zero_cell) @
      filter (\<lambda>row. \<not> full_row row) (map (board g) [0..<ROWS])"
    by (elim conjE)
  from t have "cleared \<le> 4 \<longrightarrow> (\<exists>g'. clear_lines g = Some g' \<and> board g' = b')"
    by (elim conjE)
  with c n bg obtain g' where g': "clear_lines g = Some g'" "board g' = b'"
    by auto
  from g' rows c n f bg
  have cl: "map_option (\<lambda>g'. map (board g') [0..<ROWS]) (clear_lines g) =
      Some (replicate 2 (\<lambda>c. zero_cell) @ map stacked_board [0..<18])"
    by simp
  from nf have "\<not> row_full b' 19" by (simp add: ROWS_def)
  with c e rows n f bg h cl show ?thesis
    unfolding g_def by simp
qed


lemma int32_wrap32: "int32 (wrap32 x)"
  using pos_mod_bound [of 4294967296 "x + 2147483648"]
    pos_mod_sign [of 4294967296 "x + 2147483648"]
  by (simp add: int32_def wrap32_def)


lemma int32_sdiv: "int32 x \<Longrightarrow> int32 (x sdiv 10)"
proof (cases "0 \<le> x")
  case True
  assume "int32 x"
  with True show ?thesis
    by (simp add: int32_def signed_divide_int_def sgn_if) arith
next
  case False
  assume "int32 x"
  with False show ?thesis
    by (simp add: int32_def signed_divide_int_def sgn_if) arith
qed

lemma int32_imax: "int32 a \<Longrightarrow> int32 b \<Longrightarrow> int32 (imax a b)"
  by (simp add: imax_def)

lemma clear_lines_c_ints:
  assumes "c_ints g" "clear_lines g = Some g'"
  shows "c_ints g'"
proof -
  obtain b' cleared ev where
    h: "clear_rows (board g) (int ROWS - 1) 0 [] = (b', cleared, ev)"
    by (cases "clear_rows (board g) (int ROWS - 1) 0 []") auto
  have m: "int32 MIN_SPEED_MS" by (simp add: int32_def MIN_SPEED_MS_def)
  show ?thesis
  proof (cases "cleared = 0")
    case True
    with assms h show ?thesis by (auto simp: clear_lines_def c_ints_def)
  next
    case False
    with assms(2) h show ?thesis
      by (auto simp: clear_lines_def c_ints_def Let_def int32_wrap32 int32_sdiv int32_imax m
          split: if_splits)
  qed
qed





section \<open>Lock: results\<close>

lemma locked_cell_idem: "locked_cell p (locked_cell p cl) = locked_cell p cl"
  by (simp add: locked_cell_def)

lemma lock_cols_apply:
  "lock_cols p r cs b i j =
     (if \<exists>c \<in> set cs. lock_target p r c i j then locked_cell p (b i j) else b i j)"
proof (induction cs arbitrary: b)
  case Nil
  show ?case by simp
next
  case (Cons c cs)
  show ?case
  proof (cases "p_m p r c \<noteq> 0 \<and> p_y p + int r \<ge> 0 \<and> p_y p + int r < int ROWS \<and>
      p_x p + int c \<ge> 0 \<and> p_x p + int c < int COLS")
    case True
    define y where "y = nat (p_y p + int r)"
    define x where "x = nat (p_x p + int c)"
    have tgt: "lock_target p r c i j = (i = y \<and> j = x)"
      using True by (auto simp: lock_target_def y_def x_def)
    have step: "lock_cols p r (c # cs) b =
        lock_cols p r cs (b(y := (b y)(x := locked_cell p (b y x))))"
      using True by (simp add: Let_def y_def x_def locked_cell_def)
    show ?thesis
      unfolding step Cons.IH
      by (auto simp: tgt locked_cell_idem)
  next
    case False
    then have tgt: "\<not> lock_target p r c i j"
      by (auto simp: lock_target_def)
    have step: "lock_cols p r (c # cs) b = lock_cols p r cs b"
      using False by (auto simp: Let_def)
    show ?thesis
      unfolding step Cons.IH by (simp add: tgt)
  qed
qed

lemma lock_rows_apply:
  "lock_rows p rs b i j =
     (if \<exists>r \<in> set rs. \<exists>c < 4. lock_target p r c i j then locked_cell p (b i j) else b i j)"
proof (induction rs arbitrary: b)
  case Nil
  show ?case by simp
next
  case (Cons r rs)
  show ?case
    by (auto simp: Cons.IH lock_cols_apply locked_cell_idem)
qed

lemma lock_piece_apply:
  "board (lock_piece g) i j =
     (if \<exists>r < 4. \<exists>c < 4. lock_target (cur g) r c i j
      then locked_cell (cur g) (board g i j) else board g i j)"
  by (auto simp: lock_piece_def lock_rows_apply)

lemma lock_count:
  assumes wb: "within_bounds (cur g)"
  shows "filled_count (board (lock_piece g)) = filled_count (board g) + on_empty_count (board g) (cur g)"
proof -
  define p where "p = cur g"
  define b where "b = board g"
  define b' where "b' = board (lock_piece g)"
  define tau where "tau = (\<lambda>(r, c). (nat (p_y p + int r), nat (p_x p + int c)))"
  define M where "M = {(r, c). r < 4 \<and> c < 4 \<and> p_m p r c \<noteq> 0}"
  define M' where "M' = {(r, c). r < 4 \<and> c < 4 \<and> p_m p r c \<noteq> 0 \<and>
      \<not> filled (b (nat (p_y p + int r)) (nat (p_x p + int c)))}"
  define cells where "cells = {..<ROWS} \<times> {..<COLS}"
  define F where "F = {(i, j). (i, j) \<in> cells \<and> filled (b i j)}"
  define F' where "F' = {(i, j). (i, j) \<in> cells \<and> filled (b' i j)}"
  have inb: "0 \<le> p_x p + int c \<and> p_x p + int c < int COLS \<and>
      0 \<le> p_y p + int r \<and> p_y p + int r < int ROWS" if "(r, c) \<in> M" for r c
  proof -
    from that have rc: "r < 4" "c < 4" "p_m p r c \<noteq> 0" by (auto simp: M_def)
    from wb have "\<forall>u \<in> {0..<4} \<times> {0..<4}. case u of (r, c) \<Rightarrow> p_m p r c = 0 \<or>
        (0 \<le> p_x p + int c \<and> p_x p + int c < int COLS \<and>
         0 \<le> p_y p + int r \<and> p_y p + int r < int ROWS)"
      by (simp add: within_bounds_def list_all_iff p_def)
    from bspec [OF this, of "(r, c)"] rc show ?thesis by simp
  qed
  have fin: "finite cells" by (simp add: cells_def)
  have finF: "finite F" using fin by (auto simp: F_def intro: finite_subset)
  have finM: "finite M"
    by (rule finite_subset [of _ "{..<4} \<times> {..<4}"]) (auto simp: M_def)
  have tgt: "(\<exists>r < 4. \<exists>c < 4. lock_target p r c i j) = ((i, j) \<in> tau ` M)" for i j
  proof
    assume "\<exists>r < 4. \<exists>c < 4. lock_target p r c i j"
    then obtain r c where rc: "r < 4" "c < 4" "lock_target p r c i j" by blast
    then have "(r, c) \<in> M" "tau (r, c) = (i, j)"
      by (auto simp: lock_target_def M_def tau_def)
    then show "(i, j) \<in> tau ` M" by force
  next
    assume "(i, j) \<in> tau ` M"
    then obtain r c where rc: "(r, c) \<in> M" "(i, j) = tau (r, c)" by auto
    from inb [OF rc(1)] rc show "\<exists>r < 4. \<exists>c < 4. lock_target p r c i j"
      by (auto simp: lock_target_def M_def tau_def intro!: exI [of _ r] exI [of _ c])
  qed
  have fb': "filled (b' i j) = (filled (b i j) \<or> (i, j) \<in> tau ` M)" for i j
    unfolding b'_def lock_piece_apply tgt [unfolded p_def] tgt
    by (simp add: locked_cell_def b_def p_def)
  have sub: "tau ` M \<subseteq> cells"
  proof
    fix ij assume "ij \<in> tau ` M"
    then obtain r c where rc: "(r, c) \<in> M" "ij = tau (r, c)" by auto
    from inb [OF rc(1)] rc(2) show "ij \<in> cells"
      by (auto simp: cells_def tau_def)
  qed
  have F'_eq: "F' = F \<union> (tau ` M - F)"
    using sub by (auto simp: F'_def F_def fb')
  have diff: "tau ` M - F = tau ` M'"
  proof (intro set_eqI iffI)
    fix ij assume a: "ij \<in> tau ` M - F"
    then obtain r c where rc: "(r, c) \<in> M" "ij = tau (r, c)" by auto
    with a sub have "\<not> filled (b (nat (p_y p + int r)) (nat (p_x p + int c)))"
      by (auto simp: F_def tau_def)
    with rc have "(r, c) \<in> M'" by (auto simp: M_def M'_def)
    with rc show "ij \<in> tau ` M'" by auto
  next
    fix ij assume "ij \<in> tau ` M'"
    then obtain r c where rc: "(r, c) \<in> M'" "ij = tau (r, c)" by auto
    then have "(r, c) \<in> M" by (auto simp: M_def M'_def)
    with rc show "ij \<in> tau ` M - F"
      by (auto simp: F_def M'_def tau_def)
  qed
  have inj: "inj_on tau M'"
  proof (rule inj_onI)
    fix u v assume uv: "u \<in> M'" "v \<in> M'" "tau u = tau v"
    obtain r c where u: "u = (r, c)" by (cases u)
    obtain r' c' where v: "v = (r', c')" by (cases v)
    from uv u v have "(r, c) \<in> M" "(r', c') \<in> M" by (auto simp: M_def M'_def)
    from inb [OF this(1)] inb [OF this(2)] uv(3) show "u = v"
      by (auto simp: u v tau_def)
  qed
  have finM': "finite M'"
    by (rule finite_subset [OF _ finM]) (auto simp: M_def M'_def)
  have "card F' = card F + card (tau ` M')"
    unfolding F'_eq diff [symmetric]
    by (rule card_Un_disjoint) (use finF finM in auto)
  also have "card (tau ` M') = card M'"
    by (rule card_image [OF inj])
  finally have main: "card F' = card F + card M'" .
  have d1: "distinct (List.product [0..<ROWS] [0..<COLS])"
    by (simp add: distinct_product)
  have d2: "distinct (List.product [0..<4::nat] [0..<4::nat])"
    by (simp add: distinct_product)
  have c1: "filled_count b = card F"
    unfolding filled_count_def distinct_length_filter [OF d1]
    by (rule arg_cong [where f = card]) (auto simp: F_def cells_def)
  have c2: "filled_count b' = card F'"
    unfolding filled_count_def distinct_length_filter [OF d1]
    by (rule arg_cong [where f = card]) (auto simp: F'_def cells_def)
  have c3: "on_empty_count b p = card M'"
    unfolding on_empty_count_def distinct_length_filter [OF d2]
    by (rule arg_cong [where f = card]) (auto simp: M'_def)
  show ?thesis
    using main c1 c2 c3 by (simp add: b_def b'_def p_def)
qed

lemma product4: "set (List.product [0..<4] [0..<4]) = {(r, c). r < 4 \<and> c < (4::nat)}"
  by auto

lemma not_collide_cell:
  "\<not> collide b p (p_x p) (p_y p) \<Longrightarrow> r < 4 \<Longrightarrow> c < 4 \<Longrightarrow> p_m p r c \<noteq> 0 \<Longrightarrow>
   0 \<le> p_x p + int c \<and> p_x p + int c < int COLS \<and> 0 \<le> p_y p + int r \<and> p_y p + int r < int ROWS \<and>
   \<not> filled (b (nat (p_y p + int r)) (nat (p_x p + int c)))"
  unfolding collide_iff cell_blocked_def by (metis not_le)

lemma not_collide_within:
  assumes "\<not> collide b p (p_x p) (p_y p)"
  shows "within_bounds p"
proof -
  have "p_m p r c = 0 \<or> (0 \<le> p_x p + int c \<and> p_x p + int c < int COLS \<and>
      0 \<le> p_y p + int r \<and> p_y p + int r < int ROWS)" if "r < 4" "c < 4" for r c
    using not_collide_cell [OF assms that] by auto
  then show ?thesis
    unfolding within_bounds_def list_all_iff product4 by auto
qed

lemma not_collide_on_empty:
  assumes "\<not> collide b p (p_x p) (p_y p)"
  shows "on_empty_count b p = mask_count p"
proof -
  have "filter (\<lambda>(r, c). p_m p r c \<noteq> 0 \<and>
      \<not> filled (b (nat (p_y p + int r)) (nat (p_x p + int c)))) (List.product [0..<4] [0..<4]) =
    filter (\<lambda>(r, c). p_m p r c \<noteq> 0) (List.product [0..<4] [0..<4])"
  proof (rule filter_cong [OF refl])
    fix u assume u: "u \<in> set (List.product [0..<4] [0..<4::nat])"
    obtain r c where rc: "u = (r, c)" by (cases u)
    from u rc have "r < 4" "c < 4" by auto
    from not_collide_cell [OF assms this]
    show "(case u of (r, c) \<Rightarrow> p_m p r c \<noteq> 0 \<and>
          \<not> filled (b (nat (p_y p + int r)) (nat (p_x p + int c)))) =
        (case u of (r, c) \<Rightarrow> p_m p r c \<noteq> 0)"
      by (auto simp: rc)
  qed
  then show ?thesis by (simp add: on_empty_count_def mask_count_def)
qed

lemma product44: "List.product [0..<4] [0..<4::nat] =
  [(0,0),(0,1),(0,2),(0,3),(1,0),(1,1),(1,2),(1,3),(2,0),(2,1),(2,2),(2,3),(3,0),(3,1),(3,2),(3,3)]"
  by (simp add: upt4)

text \<open>
  C7 (as stated it fails). Locking a piece that is fully within bounds does not always
  add the piece's cell count to the number of filled cells: \<open>lock_piece\<close> does not
  look at what the board holds, and the O piece (4 cells, all on the board) locked over
  one filled cell adds 3.
\<close>

theorem lock_piece_count_counterexample:
  "within_bounds (cur overlap_game) \<and> mask_count (cur overlap_game) = 4 \<and>
   filled_count (board (lock_piece overlap_game)) = filled_count (board overlap_game) + 3"
proof -
  have w: "within_bounds (cur overlap_game)"
    by (simp add: within_bounds_def product44 overlap_game_def game_reset_def new_bag_piece_def
        piece_from_k_def SHAPES_def COLS_def ROWS_def)
  have m: "mask_count (cur overlap_game) = 4"
    by (simp add: mask_count_def product44 overlap_game_def game_reset_def new_bag_piece_def
        piece_from_k_def SHAPES_def)
  have e: "on_empty_count (board overlap_game) (cur overlap_game) = 3"
    by (simp add: on_empty_count_def product44 overlap_game_def game_reset_def new_bag_piece_def
        piece_from_k_def SHAPES_def COLS_def zero_cell_def)
  from w m e lock_count [OF w] show ?thesis by simp
qed

text \<open>
  A lock of this kind occurs in a run. Ten hard drops of O pieces from the reset stack
  them in columns 3 and 4 up to row 0; the piece spawned by the tenth collides at its
  spawn position, so the game is over, and it collides one row lower as well, so the
  next gravity step of the same frame locks it where it stands, on four filled cells:
  the number of filled cells does not change.
\<close>

lemma overlapping_lock_in_run:
  "\<exists>g. run [HardDrop 1 0, HardDrop 1 0, HardDrop 1 0, HardDrop 1 0, HardDrop 1 0,
          HardDrop 1 0, HardDrop 1 0, HardDrop 1 0, HardDrop 1 0, HardDrop 1 0]
         (game_reset 1 0 1 0) = Some g \<and>
     game_over g \<and> collide (board g) (cur g) (p_x (cur g)) (p_y (cur g) + 1) \<and>
     within_bounds (cur g) \<and> mask_count (cur g) = 4 \<and>
     filled_count (board (lock_piece g)) = filled_count (board g)"
proof -
  have u: "[0..<20] = [0,1,2,3,4,5,6,7,8,9,10,11,12,13,14,15,16,17,18,19::nat]"
    "[0..<10] = [0,1,2,3,4,5,6,7,8,9::nat]"
    by (simp_all add: upt_rec)
  have "\<exists>g. run [HardDrop 1 0, HardDrop 1 0, HardDrop 1 0, HardDrop 1 0, HardDrop 1 0,
          HardDrop 1 0, HardDrop 1 0, HardDrop 1 0, HardDrop 1 0, HardDrop 1 0]
         (game_reset 1 0 1 0) = Some g \<and>
     game_over g \<and> collide (board g) (cur g) (p_x (cur g)) (p_y (cur g) + 1) \<and>
     within_bounds (cur g) \<and> mask_count (cur g) = 4 \<and> on_empty_count (board g) (cur g) = 0"
    by (simp add: game_reset_def new_bag_piece_def piece_from_k_def SHAPES_def collide_def upt4
        zero_cell_def COLS_def ROWS_def hard_drop_def lock_piece_def clear_lines_def
        spawn_piece_def Let_def drop_loop.simps clear_rows.simps row_full_def u
        pull_down_def TILE_def within_bounds_def mask_count_def on_empty_count_def product44)
  then obtain g where g:
    "run [HardDrop 1 0, HardDrop 1 0, HardDrop 1 0, HardDrop 1 0, HardDrop 1 0,
          HardDrop 1 0, HardDrop 1 0, HardDrop 1 0, HardDrop 1 0, HardDrop 1 0]
         (game_reset 1 0 1 0) = Some g"
    "game_over g" "collide (board g) (cur g) (p_x (cur g)) (p_y (cur g) + 1)"
    "within_bounds (cur g)" "mask_count (cur g) = 4" "on_empty_count (board g) (cur g) = 0"
    by blast
  from lock_count [OF g(4)] g(6) have "filled_count (board (lock_piece g)) = filled_count (board g)"
    by simp
  with g show ?thesis by blast
qed

text \<open>
  C7 (amended). \<open>lock_piece\<close> changes the board only. A board cell \<open>(i, j)\<close> is
  written, with \<open>filled = true\<close> and the current piece's type and tint, exactly when
  a set mask cell \<open>(r, c)\<close> has \<open>(cur.y + r, cur.x + c) = (i, j)\<close> on the board; every
  other board cell keeps its value. A set cell whose row is negative (or that is off
  the board on any side) is on no board cell and is dropped, and the game-over flag is
  not touched. Locking a piece at a position where it does not collide (fully within
  bounds and on empty cells) increases the number of filled board cells by exactly the
  number of set mask cells.
\<close>

theorem lock_piece_spec:
  "lock_piece g = g\<lparr>board := board (lock_piece g)\<rparr> \<and>
   (\<forall>i j. board (lock_piece g) i j =
      (if \<exists>r < 4. \<exists>c < 4. p_m (cur g) r c \<noteq> 0 \<and>
            int i = p_y (cur g) + int r \<and> int j = p_x (cur g) + int c \<and> i < ROWS \<and> j < COLS
       then (board g i j)\<lparr>filled := True, cell_type := p_type (cur g), cell_tint := p_tint (cur g)\<rparr>
       else board g i j)) \<and>
   game_over (lock_piece g) = game_over g \<and>
   (\<not> collide (board g) (cur g) (p_x (cur g)) (p_y (cur g)) \<longrightarrow>
      filled_count (board (lock_piece g)) = filled_count (board g) + mask_count (cur g))"
proof -
  have a: "lock_piece g = g\<lparr>board := board (lock_piece g)\<rparr>"
    by (simp add: lock_piece_def)
  have b: "\<forall>i j. board (lock_piece g) i j =
      (if \<exists>r < 4. \<exists>c < 4. p_m (cur g) r c \<noteq> 0 \<and>
            int i = p_y (cur g) + int r \<and> int j = p_x (cur g) + int c \<and> i < ROWS \<and> j < COLS
       then (board g i j)\<lparr>filled := True, cell_type := p_type (cur g), cell_tint := p_tint (cur g)\<rparr>
       else board g i j)"
    unfolding lock_piece_apply lock_target_def locked_cell_def by simp
  have c: "game_over (lock_piece g) = game_over g"
    by (simp add: lock_piece_def)
  have d: "\<not> collide (board g) (cur g) (p_x (cur g)) (p_y (cur g)) \<longrightarrow>
      filled_count (board (lock_piece g)) = filled_count (board g) + mask_count (cur g)"
    using lock_count [OF not_collide_within] not_collide_on_empty by auto
  from a b c d show ?thesis by (intro conjI)
qed

theorem lock_piece_spec_witness:
  "filled_count (board (lock_piece (game_reset 1 0 0 0))) =
     filled_count (board (game_reset 1 0 0 0)) + 4 \<and>
   board (lock_piece (game_reset 1 0 0 0)) 1 4 = \<lparr>filled = True, cell_type = 0, cell_tint = 1\<rparr> \<and>
   board (lock_piece (game_reset 1 0 0 0)) 2 4 = zero_cell"
proof -
  define g where "g = game_reset 1 0 0 0"
  have nc: "\<not> collide (board g) (cur g) (p_x (cur g)) (p_y (cur g))"
    by (simp add: collide_def upt4 g_def game_reset_def new_bag_piece_def
        piece_from_k_def SHAPES_def COLS_def ROWS_def zero_cell_def)
  have m: "mask_count (cur g) = 4"
    by (simp add: mask_count_def product44 g_def game_reset_def new_bag_piece_def
        piece_from_k_def SHAPES_def)
  note t = lock_piece_spec [of g]
  from t nc m have a: "filled_count (board (lock_piece g)) = filled_count (board g) + 4"
    by simp
  from t have "\<forall>i j. board (lock_piece g) i j =
      (if \<exists>r < 4. \<exists>c < 4. p_m (cur g) r c \<noteq> 0 \<and>
            int i = p_y (cur g) + int r \<and> int j = p_x (cur g) + int c \<and> i < ROWS \<and> j < COLS
       then (board g i j)\<lparr>filled := True, cell_type := p_type (cur g), cell_tint := p_tint (cur g)\<rparr>
       else board g i j)"
    by (elim conjE)
  then have b: "board (lock_piece g) 1 4 = \<lparr>filled = True, cell_type = 0, cell_tint = 1\<rparr>"
    and c: "board (lock_piece g) 2 4 = zero_cell"
    by (auto simp: g_def game_reset_def new_bag_piece_def piece_from_k_def SHAPES_def
        COLS_def ROWS_def zero_cell_def)
  from a b c show ?thesis by (simp add: g_def)
qed

section \<open>Reachable states: results\<close>

lemma mask_ok_iff: "mask_ok p = (\<exists>r < 4. \<exists>c < 4. p_m p r c \<noteq> 0)"
  unfolding mask_ok_def list_ex_iff by (simp add: Bex_def)

lemma lock_row_outside:
  assumes "\<not> (p_y (cur g) \<le> int i \<and> int i \<le> p_y (cur g) + 3)"
  shows "board (lock_piece g) i = board g i"
proof
  fix j
  have "\<not> lock_target (cur g) r c i j" if "r < 4" for r c
    using assms that by (simp add: lock_target_def) arith
  then have "\<not> (\<exists>r < 4. \<exists>c < 4. lock_target (cur g) r c i j)"
    by blast
  then show "board (lock_piece g) i j = board g i j"
    by (simp only: lock_piece_apply if_False)
qed

lemma lock_full_rows_le:
  assumes "\<forall>r < ROWS. \<not> row_full (board g) r"
  shows "length (filter (row_full (board (lock_piece g))) [0..<ROWS]) \<le> 4"
proof -
  define S where "S = {i. row_full (board (lock_piece g)) i} \<inter> set [0..<ROWS]"
  have "S \<subseteq> (\<lambda>r. nat (p_y (cur g) + int r)) ` {..<4}"
  proof
    fix i assume i: "i \<in> S"
    then have f: "row_full (board (lock_piece g)) i" and lt: "i < ROWS"
      by (auto simp: S_def)
    have "p_y (cur g) \<le> int i \<and> int i \<le> p_y (cur g) + 3"
    proof (rule ccontr)
      assume "\<not> ?thesis"
      from lock_row_outside [OF this] f have "row_full (board g) i"
        by (simp add: row_full_eq)
      with assms lt show False by simp
    qed
    then have "nat (int i - p_y (cur g)) < 4" "i = nat (p_y (cur g) + int (nat (int i - p_y (cur g))))"
      by auto
    then show "i \<in> (\<lambda>r. nat (p_y (cur g) + int r)) ` {..<4}"
      by blast
  qed
  then have "card S \<le> card ((\<lambda>r. nat (p_y (cur g) + int r)) ` {..<(4::nat)})"
    by (intro card_mono) auto
  also have "\<dots> \<le> card {..<(4::nat)}"
    by (rule card_image_le) simp
  finally have "card S \<le> 4" by simp
  then show ?thesis
    by (simp add: distinct_length_filter S_def)
qed

lemma clear_lines_returns:
  assumes h: "clear_rows (board g) (int ROWS - 1) 0 [] = (b', cleared, ev)" and c: "cleared \<le> 4"
  shows "\<exists>g'. clear_lines g = Some g' \<and> board g' = b' \<and> cur g' = cur g \<and> nxt g' = nxt g \<and>
    hold g' = hold g \<and> has_hold g' = has_hold g \<and> can_hold g' = can_hold g \<and>
    game_over g' = game_over g \<and> (c_ints g \<longrightarrow> c_ints g')"
proof -
  from h c have "\<exists>g'. clear_lines g = Some g'"
    by (simp add: clear_lines_def score_tbl_def Let_def)
  then obtain g' where g': "clear_lines g = Some g'" ..
  with h have "board g' = b' \<and> cur g' = cur g \<and> nxt g' = nxt g \<and>
    hold g' = hold g \<and> has_hold g' = has_hold g \<and> can_hold g' = can_hold g \<and>
    game_over g' = game_over g"
    by (auto simp: clear_lines_def Let_def split: if_splits)
  with g' clear_lines_c_ints [OF _ g'] show ?thesis by blast
qed

lemma clear_rows_no_full:
  assumes "clear_rows b (int ROWS - 1) 0 [] = (b', cleared, ev)"
  shows "\<forall>r < ROWS. \<not> row_full b' r"
proof (intro allI impI)
  fix r assume "r < ROWS"
  then have "b' r \<in> set (map b' [0..<ROWS])" by simp
  also have "map b' [0..<ROWS] =
      replicate (length (filter full_row (map b [0..<ROWS]))) zero_row @
      filter (\<lambda>row. \<not> full_row row) (map b [0..<ROWS])"
    using clear_rows_top [OF assms] by (simp add: rows_ok_def Let_def)
  finally have "\<not> full_row (b' r)"
    using zero_row_not_full by auto
  then show "\<not> row_full b' r" by (simp add: row_full_eq)
qed

lemma lock_clear_returns:
  assumes "\<forall>r < ROWS. \<not> row_full (board g) r"
  shows "\<exists>g'. clear_lines (lock_piece g) = Some g' \<and> (\<forall>r < ROWS. \<not> row_full (board g') r) \<and>
    cur g' = cur g \<and> nxt g' = nxt g \<and> hold g' = hold g \<and> has_hold g' = has_hold g \<and>
    can_hold g' = can_hold g \<and> game_over g' = game_over g \<and> (c_ints g \<longrightarrow> c_ints g')"
proof -
  obtain b' cleared ev where
    h: "clear_rows (board (lock_piece g)) (int ROWS - 1) 0 [] = (b', cleared, ev)"
    by (cases "clear_rows (board (lock_piece g)) (int ROWS - 1) 0 []") auto
  have "cleared \<le> 4"
    using clear_rows_count [OF h] lock_full_rows_le [OF assms] by simp
  moreover have "c_ints (lock_piece g) = c_ints g"
    by (simp add: lock_piece_def c_ints_def)
  ultimately show ?thesis
    using clear_lines_returns [OF h] clear_rows_no_full [OF h]
    by (auto simp: lock_piece_def)
qed

lemma drop_loop_returns:
  "mask_ok (cur g) \<Longrightarrow>
   \<exists>d \<ge> 0. drop_loop g = Some (g\<lparr>cur := (cur g)\<lparr>p_y := p_y (cur g) + d\<rparr>\<rparr>)"
proof (induction g rule: measure_induct_rule [where f = "\<lambda>g. nat (int ROWS - p_y (cur g))"])
  case (less g)
  show ?case
  proof (cases "collide (board g) (cur g) (p_x (cur g)) (p_y (cur g) + 1)")
    case True
    then have "drop_loop g = Some (g\<lparr>cur := (cur g)\<lparr>p_y := p_y (cur g) + 0\<rparr>\<rparr>)"
      by (subst drop_loop.simps) simp
    then show ?thesis by (intro exI [of _ 0]) simp
  next
    case False
    define g1 where "g1 = g\<lparr>cur := (cur g)\<lparr>p_y := p_y (cur g) + 1\<rparr>\<rparr>"
    from less.prems obtain r c where rc: "r < 4" "c < 4" "p_m (cur g) r c \<noteq> 0"
      by (auto simp: mask_ok_iff)
    with False have "\<not> cell_blocked (board g) (cur g) (p_x (cur g)) (p_y (cur g) + 1) r c"
      by (auto simp: collide_iff)
    with rc have "p_y (cur g) + 1 + int r < int ROWS"
      by (simp add: cell_blocked_def)
    then have dec: "nat (int ROWS - p_y (cur g1)) < nat (int ROWS - p_y (cur g))"
      by (simp add: g1_def)
    have "mask_ok (cur g1)"
      using less.prems by (simp add: g1_def mask_ok_def)
    from less.IH [OF dec this] obtain d where d: "0 \<le> d"
      "drop_loop g1 = Some (g1\<lparr>cur := (cur g1)\<lparr>p_y := p_y (cur g1) + d\<rparr>\<rparr>)"
      by blast
    have "drop_loop g = drop_loop g1"
      using False by (subst drop_loop.simps) (simp add: g1_def)
    with d have "drop_loop g = Some (g\<lparr>cur := (cur g)\<lparr>p_y := p_y (cur g) + (1 + d)\<rparr>\<rparr>)"
      by (simp add: g1_def add.assoc)
    with d(1) show ?thesis
      by (intro exI [of _ "1 + d"]) simp
  qed
qed

lemma seven_cases: "(k::nat) < 7 \<Longrightarrow> k = 0 \<or> k = 1 \<or> k = 2 \<or> k = 3 \<or> k = 4 \<or> k = 5 \<or> k = 6"
  by arith

lemma shapes_centre: "k < 7 \<Longrightarrow> SHAPES ! k ! 1 ! 1 = 1"
  using seven_cases [of k] by (auto simp: SHAPES_def)

lemma mask_ok_new: "mask_ok (new_bag_piece rk rt)"
proof -
  have "SHAPES ! (rk mod 7) ! 1 ! 1 = 1"
    by (rule shapes_centre) simp
  then have "p_m (new_bag_piece rk rt) 1 1 \<noteq> 0"
    by (simp add: new_bag_piece_def piece_from_k_def)
  then show ?thesis
    unfolding mask_ok_iff by (intro exI [of _ 1] conjI) simp_all
qed

lemma mask_ok_pos: "mask_ok (p\<lparr>p_x := a, p_y := b\<rparr>) = mask_ok p"
  by (simp add: mask_ok_def)

lemma mask_ok_rotate_cw: "mask_ok p \<Longrightarrow> mask_ok (rotate_cw p)"
proof -
  assume "mask_ok p"
  then obtain r c where rc: "r < 4" "c < 4" "p_m p r c \<noteq> 0"
    by (auto simp: mask_ok_iff)
  then have "p_m (rotate_cw p) c (3 - r) \<noteq> 0"
    by (simp add: rotate_cw_index)
  with rc show ?thesis
    unfolding mask_ok_iff by (intro exI [of _ c] exI [of _ "3 - r"] conjI) simp_all
qed

lemma mask_ok_rotate_ccw: "mask_ok p \<Longrightarrow> mask_ok (rotate_ccw p)"
proof -
  assume "mask_ok p"
  then obtain r c where rc: "r < 4" "c < 4" "p_m p r c \<noteq> 0"
    by (auto simp: mask_ok_iff)
  then have "p_m (rotate_ccw p) (3 - c) r \<noteq> 0"
    by (simp add: rotate_ccw_index)
  with rc show ?thesis
    unfolding mask_ok_iff by (intro exI [of _ "3 - c"] exI [of _ r] conjI) simp_all
qed

lemma no_full_iff: "list_all (\<lambda>r. \<not> row_full b r) [0..<ROWS] = (\<forall>r < ROWS. \<not> row_full b r)"
  by (auto simp: list_all_iff)

lemma try_kicks_inv:
  "engine_inv g \<Longrightarrow> mask_ok t \<Longrightarrow> engine_inv (try_kicks g t ks)"
  by (induction ks) (auto simp: engine_inv_def c_ints_def mask_ok_def)

lemma engine_inv_rotate: "engine_inv g \<Longrightarrow> engine_inv (attempt_rotate g cw)"
  unfolding attempt_rotate_def
  by (rule try_kicks_inv) (auto simp: engine_inv_def c_ints_def mask_ok_rotate_cw mask_ok_rotate_ccw)

lemma engine_inv_move: "engine_inv g \<Longrightarrow> engine_inv (move_left g) \<and> engine_inv (move_right g)"
  by (simp add: engine_inv_def c_ints_def move_left_def move_right_def mask_ok_def)

lemma engine_inv_reset: "engine_inv (game_reset rk1 rt1 rk2 rt2)"
proof -
  have "\<not> row_full (\<lambda>r c. zero_cell) r" for r
    using zero_row_not_full by (simp add: row_full_eq zero_row_def)
  then show ?thesis
    by (simp add: engine_inv_def c_ints_def int32_def START_SPEED_MS_def game_reset_def
        mask_ok_new mask_ok_pos list_all_iff)
qed

lemma engine_inv_spawn:
  "list_all (\<lambda>r. \<not> row_full (board g) r) [0..<ROWS] \<Longrightarrow> mask_ok (nxt g) \<Longrightarrow>
   \<not> has_hold g \<or> mask_ok (hold g) \<Longrightarrow> c_ints g \<Longrightarrow> engine_inv (spawn_piece g rk rt)"
  by (auto simp: engine_inv_def c_ints_def spawn_piece_def Let_def mask_ok_new mask_ok_pos)

lemma engine_inv_hold: "engine_inv g \<Longrightarrow> engine_inv (hold_piece g rk rt)"
proof -
  assume inv: "engine_inv g"
  show ?thesis
  proof (cases "can_hold g")
    case False
    with inv show ?thesis by (simp add: hold_piece_def)
  next
    case ch: True
    show ?thesis
    proof (cases "has_hold g")
      case False
      have "engine_inv (spawn_piece (g\<lparr>hold := cur g, has_hold := True\<rparr>) rk rt)"
        using inv by (intro engine_inv_spawn) (simp_all add: engine_inv_def c_ints_def)
      then have "engine_inv ((spawn_piece (g\<lparr>hold := cur g, has_hold := True\<rparr>) rk rt)\<lparr>can_hold := False\<rparr>)"
        by (simp add: engine_inv_def c_ints_def)
      with ch False show ?thesis by (simp add: hold_piece_def)
    next
      case True
      with ch inv show ?thesis
        by (simp add: hold_piece_def Let_def engine_inv_def c_ints_def mask_ok_pos)
    qed
  qed
qed

lemma settle_returns:
  assumes "list_all (\<lambda>r. \<not> row_full (board g) r) [0..<ROWS]" "mask_ok (nxt g)"
    "\<not> has_hold g \<or> mask_ok (hold g)" "c_ints g"
  shows "\<exists>g2. clear_lines (lock_piece g) = Some g2 \<and> engine_inv (spawn_piece g2 rk rt)"
proof -
  from assms(1) have "\<forall>r < ROWS. \<not> row_full (board g) r" by (simp add: no_full_iff)
  from lock_clear_returns [OF this] assms(4) obtain g2 where g2:
    "clear_lines (lock_piece g) = Some g2" "\<forall>r < ROWS. \<not> row_full (board g2) r"
    "nxt g2 = nxt g" "hold g2 = hold g" "has_hold g2 = has_hold g" "c_ints g2"
    by blast
  have "engine_inv (spawn_piece g2 rk rt)"
    using g2 assms by (intro engine_inv_spawn) (simp_all add: no_full_iff)
  with g2(1) show ?thesis by blast
qed

lemma soft_step_returns:
  assumes "engine_inv g"
  shows "\<exists>g'. soft_step g rk rt = Some g' \<and> engine_inv g'"
proof (cases "collide (board g) (cur g) (p_x (cur g)) (p_y (cur g) + 1)")
  case False
  with assms show ?thesis
    by (simp add: soft_step_def engine_inv_def c_ints_def mask_ok_def)
next
  case True
  from assms settle_returns [of g rk rt] obtain g2 where
    "clear_lines (lock_piece g) = Some g2" "engine_inv (spawn_piece g2 rk rt)"
    by (auto simp: engine_inv_def c_ints_def)
  with True show ?thesis by (simp add: soft_step_def)
qed

lemma hard_drop_returns:
  assumes "engine_inv g"
  shows "\<exists>g'. hard_drop g rk rt = Some g' \<and> engine_inv g'"
proof -
  from assms have "mask_ok (cur g)" by (simp add: engine_inv_def c_ints_def)
  from drop_loop_returns [OF this] obtain d where
    d: "drop_loop g = Some (g\<lparr>cur := (cur g)\<lparr>p_y := p_y (cur g) + d\<rparr>\<rparr>)"
    by blast
  define g1 where "g1 = g\<lparr>cur := (cur g)\<lparr>p_y := p_y (cur g) + d\<rparr>\<rparr>"
  from assms settle_returns [of g1 rk rt] obtain g2 where
    "clear_lines (lock_piece g1) = Some g2" "engine_inv (spawn_piece g2 rk rt)"
    by (auto simp: engine_inv_def c_ints_def g1_def)
  with d show ?thesis by (simp add: hard_drop_def g1_def)
qed

lemma command_returns:
  "engine_inv g \<Longrightarrow> \<exists>g'. apply_command cmd g = Some g' \<and> engine_inv g'"
  by (cases cmd)
    (simp_all add: engine_inv_move engine_inv_rotate engine_inv_hold engine_inv_reset
      soft_step_returns hard_drop_returns)

lemma run_inv: "engine_inv g \<Longrightarrow> \<exists>g'. run cmds g = Some g' \<and> engine_inv g'"
proof (induction cmds arbitrary: g)
  case Nil
  then show ?case by simp
next
  case (Cons cmd cmds)
  from command_returns [OF Cons.prems, of cmd] obtain g1 where
    g1: "apply_command cmd g = Some g1" "engine_inv g1"
    by blast
  from Cons.IH [OF g1(2)] g1(1) show ?case by simp
qed

lemma run_reset_inv:
  "run cmds (game_reset rk1 rt1 rk2 rt2) = Some g \<Longrightarrow> engine_inv g"
  using run_inv [OF engine_inv_reset, of cmds rk1 rt1 rk2 rt2] by auto

text \<open>
  C6. In every state that a run of commands reaches from a reset, the board holds no
  full row. A lock writes cells in at most the four rows \<open>cur.y .. cur.y + 3\<close> of the
  mask, so whatever piece is locked there (the current piece wherever a drop has taken
  it), the line-clear scan that follows counts at most 4 full rows: the index into the
  five-entry score table is in bounds and \<open>clear_lines\<close> returns. Every command, and so
  every further run, returns.
\<close>

theorem lock_clears_at_most_four:
  assumes "run cmds (game_reset rk1 rt1 rk2 rt2) = Some g"
  shows "(\<forall>r < ROWS. \<not> row_full (board g) r) \<and>
    (\<forall>p b' cleared ev.
       clear_rows (board (lock_piece (g\<lparr>cur := p\<rparr>))) (int ROWS - 1) 0 [] = (b', cleared, ev) \<longrightarrow>
       cleared \<le> 4 \<and> cleared < length score_tbl) \<and>
    (\<forall>p. \<exists>g'. clear_lines (lock_piece (g\<lparr>cur := p\<rparr>)) = Some g') \<and>
    (\<forall>cmd. \<exists>g'. apply_command cmd g = Some g') \<and>
    (\<forall>cmds'. \<exists>g'. run cmds' g = Some g')"
proof -
  have inv: "engine_inv g" by (rule run_reset_inv [OF assms])
  then have nf: "\<forall>r < ROWS. \<not> row_full (board g) r"
    by (simp add: engine_inv_def no_full_iff)
  have a: "\<forall>p b' cleared ev.
       clear_rows (board (lock_piece (g\<lparr>cur := p\<rparr>))) (int ROWS - 1) 0 [] = (b', cleared, ev) \<longrightarrow>
       cleared \<le> 4 \<and> cleared < length score_tbl"
  proof (intro allI impI)
    fix p b' cleared ev
    assume h: "clear_rows (board (lock_piece (g\<lparr>cur := p\<rparr>))) (int ROWS - 1) 0 [] = (b', cleared, ev)"
    from nf have "\<forall>r < ROWS. \<not> row_full (board (g\<lparr>cur := p\<rparr>)) r" by simp
    from lock_full_rows_le [OF this] clear_rows_count [OF h]
    show "cleared \<le> 4 \<and> cleared < length score_tbl"
      by (simp add: score_tbl_def)
  qed
  have b: "\<forall>p. \<exists>g'. clear_lines (lock_piece (g\<lparr>cur := p\<rparr>)) = Some g'"
  proof
    fix p
    from nf have "\<forall>r < ROWS. \<not> row_full (board (g\<lparr>cur := p\<rparr>)) r" by simp
    from lock_clear_returns [OF this] show "\<exists>g'. clear_lines (lock_piece (g\<lparr>cur := p\<rparr>)) = Some g'"
      by blast
  qed
  have c: "\<forall>cmd. \<exists>g'. apply_command cmd g = Some g'"
    using command_returns [OF inv] by blast
  have d: "\<forall>cmds'. \<exists>g'. run cmds' g = Some g'"
    using run_inv [OF inv] by blast
  from nf a b c d show ?thesis by (intro conjI)
qed

text \<open>
  After one hard drop from the reset with the O piece: the bottom row is not full, a
  lock of the new current piece clears at most four rows and returns, and a further
  hard drop returns.
\<close>

theorem lock_clears_at_most_four_witness:
  "\<exists>g. run [HardDrop 0 0] (game_reset 1 0 0 0) = Some g \<and>
     \<not> row_full (board g) 19 \<and>
     (\<exists>g'. clear_lines (lock_piece g) = Some g') \<and>
     (\<exists>g'. hard_drop g 3 1 = Some g')"
proof -
  have "engine_inv (game_reset 1 0 0 0)" by (rule engine_inv_reset)
  from run_inv [OF this, of "[HardDrop 0 0]"] obtain g where
    g: "run [HardDrop 0 0] (game_reset 1 0 0 0) = Some g"
    by blast
  note t = lock_clears_at_most_four [OF g]
  from t have "\<forall>r < ROWS. \<not> row_full (board g) r"
    by (elim conjE)
  then have a: "\<not> row_full (board g) 19"
    by (simp add: ROWS_def)
  from t have "\<forall>p. \<exists>g'. clear_lines (lock_piece (g\<lparr>cur := p\<rparr>)) = Some g'"
    by (elim conjE)
  from this [rule_format, of "cur g"]
  have b: "\<exists>g'. clear_lines (lock_piece g) = Some g'"
    by simp
  from t have "\<forall>cmd. \<exists>g'. apply_command cmd g = Some g'"
    by (elim conjE)
  from this [rule_format, of "HardDrop 3 1"]
  have c: "\<exists>g'. hard_drop g 3 1 = Some g'"
    by simp
  from g a b c show ?thesis by blast
qed

section \<open>Spawn and hold: results\<close>

lemma spawn_piece_eq:
  "spawn_piece g rk rt =
     g\<lparr>cur := at_spawn (nxt g), nxt := new_bag_piece rk rt,
       game_over := (game_over g \<or> collide (board g) (at_spawn (nxt g)) (int COLS div 2 - 2) 0),
       can_hold := True\<rparr>"
  by (simp add: spawn_piece_def Let_def at_spawn_def)

lemma hold_piece_swap:
  "can_hold g \<Longrightarrow> has_hold g \<Longrightarrow>
   hold_piece g rk rt =
     g\<lparr>cur := at_spawn (hold g), hold := cur g,
       game_over := (game_over g \<or> collide (board g) (at_spawn (hold g)) (int COLS div 2 - 2) 0),
       can_hold := False\<rparr>"
  by (simp add: hold_piece_def Let_def at_spawn_def)

lemma hold_piece_store:
  "can_hold g \<Longrightarrow> \<not> has_hold g \<Longrightarrow>
   hold_piece g rk rt =
     g\<lparr>cur := at_spawn (nxt g), nxt := new_bag_piece rk rt, hold := cur g, has_hold := True,
       game_over := (game_over g \<or> collide (board g) (at_spawn (nxt g)) (int COLS div 2 - 2) 0),
       can_hold := False\<rparr>"
  by (simp add: hold_piece_def spawn_piece_eq)

lemma drop_loop_keeps:
  assumes "drop_loop g = Some g1"
  shows "board g1 = board g \<and> game_over g1 = game_over g \<and> can_hold g1 = can_hold g \<and>
   has_hold g1 = has_hold g \<and> nxt g1 = nxt g \<and> hold g1 = hold g"
proof (rule drop_loop.raw_induct [where P = "\<lambda>g g1. board g1 = board g \<and>
    game_over g1 = game_over g \<and> can_hold g1 = can_hold g \<and>
    has_hold g1 = has_hold g \<and> nxt g1 = nxt g \<and> hold g1 = hold g", OF _ assms])
  fix f :: "Game \<Rightarrow> Game option" and a b :: Game
  assume IH: "\<And>u v. f u = Some v \<Longrightarrow> board v = board u \<and>
    game_over v = game_over u \<and> can_hold v = can_hold u \<and>
    has_hold v = has_hold u \<and> nxt v = nxt u \<and> hold v = hold u"
  assume eq: "(if \<not> collide (board a) (cur a) (p_x (cur a)) (p_y (cur a) + 1)
     then f (a\<lparr>cur := (cur a)\<lparr>p_y := p_y (cur a) + 1\<rparr>\<rparr>) else Some a) = Some b"
  show "board b = board a \<and> game_over b = game_over a \<and> can_hold b = can_hold a \<and>
    has_hold b = has_hold a \<and> nxt b = nxt a \<and> hold b = hold a"
  proof (cases "collide (board a) (cur a) (p_x (cur a)) (p_y (cur a) + 1)")
    case True
    with eq show ?thesis by simp
  next
    case False
    with eq have "f (a\<lparr>cur := (cur a)\<lparr>p_y := p_y (cur a) + 1\<rparr>\<rparr>) = Some b"
      by simp
    from IH [OF this] show ?thesis by simp
  qed
qed

lemma clear_lines_keeps:
  "clear_lines g = Some g' \<Longrightarrow>
   game_over g' = game_over g \<and> can_hold g' = can_hold g \<and> has_hold g' = has_hold g \<and>
   cur g' = cur g \<and> nxt g' = nxt g \<and> hold g' = hold g"
  by (auto simp: clear_lines_def Let_def split: prod.splits if_splits)

lemma try_kicks_keeps:
  "game_over (try_kicks g t ks) = game_over g \<and> can_hold (try_kicks g t ks) = can_hold g"
  by (induction ks) auto

lemma settle_game_over:
  assumes "clear_lines (lock_piece g1) = Some g2" "g' = spawn_piece g2 rk rt"
  shows "can_hold g' \<and> (game_over g1 \<longrightarrow> game_over g') \<and>
    (\<not> game_over g1 \<and> game_over g' \<longrightarrow>
       p_x (cur g') = int COLS div 2 - 2 \<and> p_y (cur g') = 0 \<and>
       collide (board g') (cur g') (int COLS div 2 - 2) 0)"
  using clear_lines_keeps [OF assms(1)] assms(2)
  by (auto simp: spawn_piece_eq lock_piece_def at_spawn_def)

lemma command_flags:
  assumes "apply_command cmd g = Some g'"
  shows "(\<not> can_hold g \<and> can_hold g' \<longrightarrow>
       (spawns cmd g \<or> is_restart cmd) \<and> (\<forall>rk rt. cmd \<noteq> Hold rk rt)) \<and>
    (game_over g \<and> \<not> game_over g' \<longrightarrow> is_restart cmd) \<and>
    (\<not> game_over g \<and> game_over g' \<longrightarrow>
       (spawns cmd g \<or> (\<exists>rk rt. cmd = Hold rk rt \<and> can_hold g \<and> has_hold g)) \<and>
       p_x (cur g') = int COLS div 2 - 2 \<and> p_y (cur g') = 0 \<and>
       collide (board g') (cur g') (int COLS div 2 - 2) 0)"
proof (cases cmd)
  case MoveLeft
  with assms show ?thesis by (auto simp: move_left_def split: if_splits)
next
  case MoveRight
  with assms show ?thesis by (auto simp: move_right_def split: if_splits)
next
  case (SoftDrop rk rt)
  show ?thesis
  proof (cases "collide (board g) (cur g) (p_x (cur g)) (p_y (cur g) + 1)")
    case False
    with assms SoftDrop show ?thesis by (auto simp: soft_step_def)
  next
    case True
    with assms SoftDrop obtain g2 where
      g2: "clear_lines (lock_piece g) = Some g2" "g' = spawn_piece g2 rk rt"
      by (auto simp: soft_step_def split: option.splits)
    from settle_game_over [OF g2] True SoftDrop show ?thesis by simp
  qed
next
  case (HardDrop rk rt)
  with assms obtain g1 g2 where
    g1: "drop_loop g = Some g1" and
    g2: "clear_lines (lock_piece g1) = Some g2" "g' = spawn_piece g2 rk rt"
    by (auto simp: hard_drop_def split: option.splits)
  from settle_game_over [OF g2] drop_loop_keeps [OF g1] HardDrop show ?thesis by simp
next
  case (Hold rk rt)
  show ?thesis
  proof (cases "can_hold g")
    case False
    with assms Hold show ?thesis by (auto simp: hold_piece_def)
  next
    case ch: True
    show ?thesis
    proof (cases "has_hold g")
      case True
      with ch assms Hold show ?thesis
        by (auto simp: hold_piece_swap at_spawn_def)
    next
      case False
      with ch assms Hold show ?thesis
        by (auto simp: hold_piece_store at_spawn_def)
    qed
  qed
next
  case RotateCW
  with assms show ?thesis by (auto simp: attempt_rotate_def try_kicks_keeps)
next
  case RotateCCW
  with assms show ?thesis by (auto simp: attempt_rotate_def try_kicks_keeps)
next
  case (Restart rk1 rt1 rk2 rt2)
  with assms show ?thesis by (auto simp: game_reset_def)
qed

text \<open>
  C8 (as stated it fails). \<open>can_hold\<close> does not become true again only through a spawn.
  After a Hold it is false; Restart then gives \<open>game_reset\<close>, which sets \<open>can_hold\<close>
  itself and does not call \<open>spawn_piece\<close>.
\<close>

theorem hold_piece_restart_counterexample:
  "\<not> can_hold (hold_piece (game_reset 0 0 1 0) 5 0) \<and>
   apply_command (Restart 0 0 0 0) (hold_piece (game_reset 0 0 1 0) 5 0) =
     Some (game_reset 0 0 0 0) \<and>
   can_hold (game_reset 0 0 0 0) \<and>
   \<not> spawns (Restart 0 0 0 0) (hold_piece (game_reset 0 0 1 0) 5 0)"
  by (simp add: hold_piece_def game_reset_def)

text \<open>
  C8 (amended). With \<open>can_hold\<close> false, \<open>hold_piece\<close> returns the game as it is. With
  \<open>can_hold\<close> true and the slot empty it stores the current piece in the slot, sets
  \<open>has_hold\<close> and spawns from the lookahead (\<open>spawn_piece\<close>: the lookahead piece becomes
  current at the spawn position, a new lookahead is drawn); with the slot occupied it
  swaps current and held piece, puts the swapped-in piece at the spawn column and row
  0, and sets \<open>game_over\<close> if it collides there. \<open>can_hold\<close> is false after every
  \<open>hold_piece\<close>, so a second Hold changes nothing. \<open>spawn_piece\<close> always sets it, and
  from a state with \<open>can_hold\<close> false a command leads to a state with \<open>can_hold\<close> true
  only when it spawns (a drop that locks ends in \<open>spawn_piece\<close>) or is Restart, whose
  \<open>game_reset\<close> sets the flag for the new game.
\<close>

theorem hold_piece_spec:
  "(\<not> can_hold g \<longrightarrow> hold_piece g rk rt = g) \<and>
   (can_hold g \<and> \<not> has_hold g \<longrightarrow>
      hold_piece g rk rt = (spawn_piece (g\<lparr>hold := cur g, has_hold := True\<rparr>) rk rt)\<lparr>can_hold := False\<rparr> \<and>
      hold (hold_piece g rk rt) = cur g \<and> has_hold (hold_piece g rk rt) \<and>
      cur (hold_piece g rk rt) = (nxt g)\<lparr>p_x := int COLS div 2 - 2, p_y := 0\<rparr> \<and>
      nxt (hold_piece g rk rt) = new_bag_piece rk rt) \<and>
   (can_hold g \<and> has_hold g \<longrightarrow>
      hold_piece g rk rt =
        g\<lparr>cur := (hold g)\<lparr>p_x := int COLS div 2 - 2, p_y := 0\<rparr>, hold := cur g,
          game_over := (game_over g \<or>
             collide (board g) ((hold g)\<lparr>p_x := int COLS div 2 - 2, p_y := 0\<rparr>) (int COLS div 2 - 2) 0),
          can_hold := False\<rparr>) \<and>
   \<not> can_hold (hold_piece g rk rt) \<and>
   hold_piece (hold_piece g rk rt) rk' rt' = hold_piece g rk rt \<and>
   can_hold (spawn_piece g rk rt) \<and>
   (\<forall>cmd g'. \<not> can_hold g \<and> apply_command cmd g = Some g' \<and> can_hold g' \<longrightarrow>
      (spawns cmd g \<or> is_restart cmd) \<and> (\<forall>rk rt. cmd \<noteq> Hold rk rt))"
proof -
  have a: "\<not> can_hold g \<longrightarrow> hold_piece g rk rt = g"
    by (simp add: hold_piece_def)
  have b: "can_hold g \<and> \<not> has_hold g \<longrightarrow>
      hold_piece g rk rt = (spawn_piece (g\<lparr>hold := cur g, has_hold := True\<rparr>) rk rt)\<lparr>can_hold := False\<rparr> \<and>
      hold (hold_piece g rk rt) = cur g \<and> has_hold (hold_piece g rk rt) \<and>
      cur (hold_piece g rk rt) = (nxt g)\<lparr>p_x := int COLS div 2 - 2, p_y := 0\<rparr> \<and>
      nxt (hold_piece g rk rt) = new_bag_piece rk rt"
    by (simp add: hold_piece_def spawn_piece_eq at_spawn_def)
  have c: "can_hold g \<and> has_hold g \<longrightarrow>
      hold_piece g rk rt =
        g\<lparr>cur := (hold g)\<lparr>p_x := int COLS div 2 - 2, p_y := 0\<rparr>, hold := cur g,
          game_over := (game_over g \<or>
             collide (board g) ((hold g)\<lparr>p_x := int COLS div 2 - 2, p_y := 0\<rparr>) (int COLS div 2 - 2) 0),
          can_hold := False\<rparr>"
    by (simp add: hold_piece_swap at_spawn_def)
  have d: "\<not> can_hold (hold_piece g rk rt)"
    by (simp add: hold_piece_def)
  then have e: "hold_piece (hold_piece g rk rt) rk' rt' = hold_piece g rk rt"
    by (simp add: hold_piece_def [of "hold_piece g rk rt"])
  have f: "can_hold (spawn_piece g rk rt)"
    by (simp add: spawn_piece_eq)
  have h: "\<forall>cmd g'. \<not> can_hold g \<and> apply_command cmd g = Some g' \<and> can_hold g' \<longrightarrow>
      (spawns cmd g \<or> is_restart cmd) \<and> (\<forall>rk rt. cmd \<noteq> Hold rk rt)"
    using command_flags by blast
  from a b c d e f h show ?thesis by (intro conjI)
qed

theorem hold_piece_spec_witness:
  "hold (hold_piece (game_reset 0 0 1 0) 5 0) = cur (game_reset 0 0 1 0) \<and>
   p_k (cur (hold_piece (game_reset 0 0 1 0) 5 0)) = 1 \<and>
   \<not> can_hold (hold_piece (game_reset 0 0 1 0) 5 0) \<and>
   hold_piece (hold_piece (game_reset 0 0 1 0) 5 0) 6 1 = hold_piece (game_reset 0 0 1 0) 5 0 \<and>
   hold_piece ((game_reset 0 0 1 0)\<lparr>can_hold := False\<rparr>) 5 0 = (game_reset 0 0 1 0)\<lparr>can_hold := False\<rparr>"
proof -
  define g where "g = game_reset 0 0 1 0"
  have ch: "can_hold g" "\<not> has_hold g" "p_k (nxt g) = 1"
    by (simp_all add: g_def game_reset_def new_bag_piece_def piece_from_k_def)
  note t = hold_piece_spec [of g 5 0 6 1]
  from t ch have "hold (hold_piece g 5 0) = cur g \<and>
      cur (hold_piece g 5 0) = (nxt g)\<lparr>p_x := int COLS div 2 - 2, p_y := 0\<rparr>"
    by blast
  with ch have a: "hold (hold_piece g 5 0) = cur g" "p_k (cur (hold_piece g 5 0)) = 1"
    by simp_all
  from t have b: "\<not> can_hold (hold_piece g 5 0)"
    "hold_piece (hold_piece g 5 0) 6 1 = hold_piece g 5 0"
    by blast+
  from hold_piece_spec [of "g\<lparr>can_hold := False\<rparr>" 5 0 6 1]
  have c: "hold_piece (g\<lparr>can_hold := False\<rparr>) 5 0 = g\<lparr>can_hold := False\<rparr>"
    by simp
  from a b c show ?thesis by (simp add: g_def)
qed

text \<open>
  C9. \<open>spawn_piece\<close> makes the lookahead piece current at column \<open>COLS/2 - 2 = 3\<close> and row
  0, draws a new lookahead piece from the two \<open>rand()\<close> results alone, sets \<open>can_hold\<close>,
  and sets \<open>game_over\<close> if the piece collides there; it never clears the flag, so in a
  game that is not over the flag after the spawn is exactly that collision test. A
  command takes a game that is not over to one that is over only by placing a piece (a
  spawn, or the swap of Hold) that collides at the spawn position; no command but
  Restart takes a game that is over to one that is not, and \<open>game_reset\<close> clears the
  flag. Every run of commands from a reset returns a state: there is no other way for
  the engine to end.
\<close>

theorem spawn_piece_spec:
  "spawn_piece g rk rt =
     g\<lparr>cur := (nxt g)\<lparr>p_x := int COLS div 2 - 2, p_y := 0\<rparr>, nxt := new_bag_piece rk rt,
       game_over := (game_over g \<or>
          collide (board g) ((nxt g)\<lparr>p_x := int COLS div 2 - 2, p_y := 0\<rparr>) (int COLS div 2 - 2) 0),
       can_hold := True\<rparr> \<and>
   int COLS div 2 - 2 = 3 \<and>
   (\<not> game_over g \<longrightarrow>
      game_over (spawn_piece g rk rt) = collide (board g) ((nxt g)\<lparr>p_x := 3, p_y := 0\<rparr>) 3 0) \<and>
   (\<forall>cmd g'. \<not> game_over g \<and> apply_command cmd g = Some g' \<and> game_over g' \<longrightarrow>
      (spawns cmd g \<or> (\<exists>rk rt. cmd = Hold rk rt \<and> can_hold g \<and> has_hold g)) \<and>
      p_x (cur g') = 3 \<and> p_y (cur g') = 0 \<and> collide (board g') (cur g') 3 0) \<and>
   (\<forall>cmd g'. game_over g \<and> apply_command cmd g = Some g' \<and> \<not> game_over g' \<longrightarrow> is_restart cmd) \<and>
   \<not> game_over (game_reset rk1 rt1 rk2 rt2) \<and>
   (\<forall>cmds. \<exists>g'. run cmds (game_reset rk1 rt1 rk2 rt2) = Some g')"
proof -
  have three: "int COLS div 2 - 2 = 3"
    by (simp add: COLS_def)
  have a: "spawn_piece g rk rt =
     g\<lparr>cur := (nxt g)\<lparr>p_x := int COLS div 2 - 2, p_y := 0\<rparr>, nxt := new_bag_piece rk rt,
       game_over := (game_over g \<or>
          collide (board g) ((nxt g)\<lparr>p_x := int COLS div 2 - 2, p_y := 0\<rparr>) (int COLS div 2 - 2) 0),
       can_hold := True\<rparr>"
    by (simp add: spawn_piece_eq at_spawn_def)
  have b: "\<not> game_over g \<longrightarrow>
      game_over (spawn_piece g rk rt) = collide (board g) ((nxt g)\<lparr>p_x := 3, p_y := 0\<rparr>) 3 0"
    by (simp add: spawn_piece_eq at_spawn_def three)
  have c: "\<forall>cmd g'. \<not> game_over g \<and> apply_command cmd g = Some g' \<and> game_over g' \<longrightarrow>
      (spawns cmd g \<or> (\<exists>rk rt. cmd = Hold rk rt \<and> can_hold g \<and> has_hold g)) \<and>
      p_x (cur g') = 3 \<and> p_y (cur g') = 0 \<and> collide (board g') (cur g') 3 0"
    using command_flags [of _ g] unfolding three by blast
  have d: "\<forall>cmd g'. game_over g \<and> apply_command cmd g = Some g' \<and> \<not> game_over g' \<longrightarrow> is_restart cmd"
    using command_flags [of _ g] by blast
  have e: "\<not> game_over (game_reset rk1 rt1 rk2 rt2)"
    by (simp add: game_reset_def)
  have f: "\<forall>cmds. \<exists>g'. run cmds (game_reset rk1 rt1 rk2 rt2) = Some g'"
    using run_inv [OF engine_inv_reset] by blast
  from a three b c d e f show ?thesis by (intro conjI)
qed

theorem spawn_piece_spec_witness:
  "\<not> game_over (spawn_piece (game_reset 0 0 1 0) 2 0) \<and>
   game_over (spawn_piece ((game_reset 0 0 1 0)\<lparr>board := (\<lambda>r c. zero_cell\<lparr>filled := True\<rparr>)\<rparr>) 2 0) \<and>
   p_x (cur (spawn_piece (game_reset 0 0 1 0) 2 0)) = 3 \<and>
   p_k (cur (spawn_piece (game_reset 0 0 1 0) 2 0)) = 1 \<and>
   p_k (nxt (spawn_piece (game_reset 0 0 1 0) 2 0)) = 2 \<and>
   can_hold (spawn_piece (game_reset 0 0 1 0) 2 0)"
proof -
  define g where "g = game_reset 0 0 1 0"
  define gf where "gf = g\<lparr>board := (\<lambda>r c. zero_cell\<lparr>filled := True\<rparr>)\<rparr>"
  have n1: "\<not> collide (board g) ((nxt g)\<lparr>p_x := 3, p_y := 0\<rparr>) 3 0"
    by (simp add: collide_def upt4 g_def game_reset_def new_bag_piece_def piece_from_k_def
        SHAPES_def COLS_def ROWS_def zero_cell_def)
  have n2: "collide (board gf) ((nxt gf)\<lparr>p_x := 3, p_y := 0\<rparr>) 3 0"
    by (simp add: collide_def upt4 gf_def g_def game_reset_def new_bag_piece_def piece_from_k_def
        SHAPES_def COLS_def ROWS_def zero_cell_def)
  have go: "\<not> game_over g" "\<not> game_over gf" "p_k (nxt g) = 1"
    by (simp_all add: gf_def g_def game_reset_def new_bag_piece_def piece_from_k_def)
  from spawn_piece_spec [of g 2 0] n1 go
  have a: "\<not> game_over (spawn_piece g 2 0)" by simp
  from spawn_piece_spec [of gf 2 0] n2 go
  have b: "game_over (spawn_piece gf 2 0)" by simp
  from spawn_piece_spec [of g 2 0, THEN conjunct1]
  have "spawn_piece g 2 0 =
     g\<lparr>cur := (nxt g)\<lparr>p_x := int COLS div 2 - 2, p_y := 0\<rparr>, nxt := new_bag_piece 2 0,
       game_over := (game_over g \<or>
          collide (board g) ((nxt g)\<lparr>p_x := int COLS div 2 - 2, p_y := 0\<rparr>) (int COLS div 2 - 2) 0),
       can_hold := True\<rparr>" .
  with go
  have c: "p_x (cur (spawn_piece g 2 0)) = 3" "p_k (cur (spawn_piece g 2 0)) = 1"
    "p_k (nxt (spawn_piece g 2 0)) = 2" "can_hold (spawn_piece g 2 0)"
    by (simp_all add: new_bag_piece_def piece_from_k_def COLS_def)
  from a b c show ?thesis by (simp add: g_def gf_def)
qed

section \<open>Particle pool: results\<close>

lemma spawn_scan_find:
  "spawn_scan ps v js =
     (case find (\<lambda>j. \<not> alive (ps j)) js of
        None \<Rightarrow> ps
      | Some j \<Rightarrow> ps(j := \<lparr>alive = True, body = v\<rparr>))"
  by (induction js) auto

lemma alive_count_card: "alive_count ps = card {j. j < MAX_PARTICLES \<and> alive (ps j)}"
proof -
  have "{j. alive (ps j)} \<inter> set [0..<MAX_PARTICLES] = {j. j < MAX_PARTICLES \<and> alive (ps j)}"
    by auto
  then show ?thesis
    by (simp add: alive_count_def distinct_length_filter)
qed

lemma alive_count_le: "alive_count ps \<le> MAX_PARTICLES"
  unfolding alive_count_def using length_filter_le [of _ "[0..<MAX_PARTICLES]"] by simp

lemma alive_count_full:
  "(alive_count ps = MAX_PARTICLES) = (\<forall>j < MAX_PARTICLES. alive (ps j))"
proof
  assume a: "alive_count ps = MAX_PARTICLES"
  have "{j. j < MAX_PARTICLES \<and> alive (ps j)} = {..<MAX_PARTICLES}"
    by (rule card_subset_eq) (use a in \<open>auto simp: alive_count_card\<close>)
  then show "\<forall>j < MAX_PARTICLES. alive (ps j)" by auto
next
  assume "\<forall>j < MAX_PARTICLES. alive (ps j)"
  then have "{j. j < MAX_PARTICLES \<and> alive (ps j)} = {..<MAX_PARTICLES}" by auto
  then show "alive_count ps = MAX_PARTICLES" by (simp add: alive_count_card)
qed

lemma spawn_scan_full:
  "alive_count ps = MAX_PARTICLES \<Longrightarrow> spawn_scan ps v [0..<MAX_PARTICLES] = ps"
proof -
  assume "alive_count ps = MAX_PARTICLES"
  then have "find (\<lambda>j. \<not> alive (ps j)) [0..<MAX_PARTICLES] = None"
    by (simp add: alive_count_full find_None_iff)
  then show ?thesis by (simp add: spawn_scan_find)
qed

lemma spawn_scan_free:
  assumes "alive_count ps \<noteq> MAX_PARTICLES"
  shows "\<exists>j < MAX_PARTICLES. \<not> alive (ps j) \<and>
    spawn_scan ps v [0..<MAX_PARTICLES] = ps(j := \<lparr>alive = True, body = v\<rparr>)"
proof -
  from assms have "\<not> (\<forall>j < MAX_PARTICLES. alive (ps j))"
    by (simp add: alive_count_full)
  then have "find (\<lambda>j. \<not> alive (ps j)) [0..<MAX_PARTICLES] \<noteq> None"
    by (auto simp: find_None_iff)
  then obtain j where j: "find (\<lambda>j. \<not> alive (ps j)) [0..<MAX_PARTICLES] = Some j"
    by auto
  then have "j < MAX_PARTICLES" "\<not> alive (ps j)"
    by (auto simp: find_Some_iff)
  with j show ?thesis
    by (auto simp: spawn_scan_find)
qed

lemma alive_count_upd:
  assumes "j < MAX_PARTICLES" "\<not> alive (ps j)"
  shows "alive_count (ps(j := \<lparr>alive = True, body = v\<rparr>)) = Suc (alive_count ps)"
proof -
  have "{i. i < MAX_PARTICLES \<and> alive ((ps(j := \<lparr>alive = True, body = v\<rparr>)) i)} =
      insert j {i. i < MAX_PARTICLES \<and> alive (ps i)}"
    using assms by auto
  moreover have "j \<notin> {i. i < MAX_PARTICLES \<and> alive (ps i)}"
    using assms by simp
  moreover have "finite {i. i < MAX_PARTICLES \<and> alive (ps i)}"
    by simp
  ultimately show ?thesis
    by (simp add: alive_count_card)
qed

lemma spawn_scan_count:
  "alive_count (spawn_scan ps v [0..<MAX_PARTICLES]) = min MAX_PARTICLES (alive_count ps + 1)"
proof (cases "alive_count ps = MAX_PARTICLES")
  case True
  then show ?thesis by (simp add: spawn_scan_full)
next
  case False
  from spawn_scan_free [OF False, of v] obtain j where
    j: "j < MAX_PARTICLES" "\<not> alive (ps j)"
    "spawn_scan ps v [0..<MAX_PARTICLES] = ps(j := \<lparr>alive = True, body = v\<rparr>)"
    by blast
  from False alive_count_le [of ps] have "alive_count ps < MAX_PARTICLES" by simp
  with j show ?thesis by (simp add: alive_count_upd)
qed

lemma spawn_scan_keeps:
  "spawn_scan ps v [0..<MAX_PARTICLES] j \<noteq> ps j \<Longrightarrow>
   j < MAX_PARTICLES \<and> \<not> alive (ps j) \<and> alive (spawn_scan ps v [0..<MAX_PARTICLES] j)"
proof (cases "alive_count ps = MAX_PARTICLES")
  case True
  assume "spawn_scan ps v [0..<MAX_PARTICLES] j \<noteq> ps j"
  with True show ?thesis by (simp add: spawn_scan_full)
next
  case False
  assume d: "spawn_scan ps v [0..<MAX_PARTICLES] j \<noteq> ps j"
  from spawn_scan_free [OF False, of v] obtain k where
    k: "k < MAX_PARTICLES" "\<not> alive (ps k)"
    "spawn_scan ps v [0..<MAX_PARTICLES] = ps(k := \<lparr>alive = True, body = v\<rparr>)"
    by blast
  with d show ?thesis by (auto split: if_splits)
qed

lemma spawn_loop_count:
  "alive_count (spawn_loop ps mk is) = min MAX_PARTICLES (alive_count ps + length is)"
proof (induction "is" arbitrary: ps)
  case Nil
  show ?case using alive_count_le [of ps] by simp
next
  case (Cons i "is")
  show ?case
    by (simp add: Cons.IH spawn_scan_count)
qed

lemma spawn_loop_keeps:
  "spawn_loop ps mk is j \<noteq> ps j \<Longrightarrow>
   j < MAX_PARTICLES \<and> \<not> alive (ps j) \<and> alive (spawn_loop ps mk is j)"
proof (induction "is" arbitrary: ps)
  case Nil
  then show ?case by simp
next
  case (Cons i "is")
  define ps1 where "ps1 = spawn_scan ps (mk i) [0..<MAX_PARTICLES]"
  have step: "spawn_loop ps mk (i # is) = spawn_loop ps1 mk is"
    by (simp add: ps1_def)
  show ?case
  proof (cases "spawn_loop ps1 mk is j = ps1 j")
    case True
    with Cons.prems [unfolded step] have "ps1 j \<noteq> ps j" by simp
    from spawn_scan_keeps [OF this [unfolded ps1_def]] True show ?thesis
      unfolding step by (simp add: ps1_def)
  next
    case False
    from Cons.IH [OF False] have a: "j < MAX_PARTICLES" "\<not> alive (ps1 j)"
      "alive (spawn_loop ps1 mk is j)"
      by simp_all
    have "ps1 j = ps j"
    proof (rule ccontr)
      assume "ps1 j \<noteq> ps j"
      from spawn_scan_keeps [OF this [unfolded ps1_def]] a(2) show False
        by (simp add: ps1_def)
    qed
    with a show ?thesis unfolding step by simp
  qed
qed

lemma spawn_loop_full:
  "alive_count ps = MAX_PARTICLES \<Longrightarrow> spawn_loop ps mk is = ps"
  by (induction "is") (simp_all add: spawn_scan_full)

lemma update_loop_alive:
  "alive (update_loop age expired integrate ps is j) \<Longrightarrow> alive (ps j)"
proof (induction "is" arbitrary: ps)
  case Nil
  then show ?case by simp
next
  case (Cons i "is")
  show ?case
  proof (cases "alive (ps i)")
    case False
    with Cons.prems have "alive (update_loop age expired integrate ps is j)" by simp
    then show ?thesis by (rule Cons.IH)
  next
    case True
    define q where "q = (if expired (age (body (ps i)))
      then ps(i := \<lparr>alive = False, body = age (body (ps i))\<rparr>)
      else ps(i := \<lparr>alive = True, body = integrate (age (body (ps i)))\<rparr>))"
    from True Cons.prems have "alive (update_loop age expired integrate q is j)"
      by (simp add: q_def Let_def split: if_splits)
    then have "alive (q j)" by (rule Cons.IH)
    with True show ?thesis
      by (cases "j = i") (simp_all add: q_def split: if_splits)
  qed
qed

lemma update_loop_outside:
  "j \<notin> set is \<Longrightarrow> update_loop age expired integrate ps is j = ps j"
  by (induction "is" arbitrary: ps) (auto simp: Let_def)

lemma alive_count_mono:
  assumes "\<And>j. j < MAX_PARTICLES \<Longrightarrow> alive (qs j) \<Longrightarrow> alive (ps j)"
  shows "alive_count qs \<le> alive_count ps"
  unfolding alive_count_card
  by (rule card_mono) (use assms in auto)

lemma pool_step_dead_outside:
  assumes "\<forall>j \<ge> MAX_PARTICLES. \<not> alive (ps j)"
  shows "\<forall>j \<ge> MAX_PARTICLES. \<not> alive (pool_step po ps j)"
proof (cases po)
  case (Explode rc mk)
  show ?thesis
  proof (intro allI impI notI)
    fix j assume j: "MAX_PARTICLES \<le> j" and a: "alive (pool_step po ps j)"
    with assms Explode have "spawn_explosion ps rc mk j \<noteq> ps j" by auto
    from spawn_loop_keeps [OF this [unfolded spawn_explosion_def]] j
    show False by simp
  qed
next
  case (Update age expired integrate)
  with assms show ?thesis
    by (auto simp: particles_update_def dest: update_loop_alive)
qed

lemma pool_run_dead_outside:
  "\<forall>j \<ge> MAX_PARTICLES. \<not> alive (ps j) \<Longrightarrow>
   \<forall>j \<ge> MAX_PARTICLES. \<not> alive (pool_run pos ps j)"
proof (induction pos arbitrary: ps)
  case Nil
  then show ?case by simp
next
  case (Cons po pos)
  from Cons.IH [OF pool_step_dead_outside [OF Cons.prems]] show ?case by simp
qed

text \<open>
  C10. The pool has \<open>MAX_PARTICLES = 4096\<close> slots. \<open>spawn_explosion\<close> makes between 120
  and 199 requests; each goes to the first dead slot of the pool, and to no slot when
  there is none. So a live particle is never overwritten, every slot that changes is a
  slot of the pool that was dead and is alive afterwards, the number of live slots
  grows by the number of requests but stops at 4096 (the requests beyond the free
  slots are dropped), and a full pool is returned as it is. \<open>particles_update\<close> only
  lets particles die and writes no slot outside the pool. Hence after any run of
  explosions and updates from a reset the live particles are at most 4096.
\<close>

theorem particle_pool_capacity:
  "MAX_PARTICLES = 4096 \<and> 120 \<le> explosion_count rc \<and> explosion_count rc \<le> 199 \<and>
   (\<forall>j. alive (ps j) \<longrightarrow> spawn_explosion ps rc mk j = ps j) \<and>
   (\<forall>j. spawn_explosion ps rc mk j \<noteq> ps j \<longrightarrow>
      j < MAX_PARTICLES \<and> \<not> alive (ps j) \<and> alive (spawn_explosion ps rc mk j)) \<and>
   alive_count (spawn_explosion ps rc mk) = min MAX_PARTICLES (alive_count ps + explosion_count rc) \<and>
   (alive_count ps = MAX_PARTICLES \<longrightarrow> spawn_explosion ps rc mk = ps) \<and>
   (\<forall>j. alive (particles_update age expired integrate ps j) \<longrightarrow> alive (ps j)) \<and>
   (\<forall>j \<ge> MAX_PARTICLES. particles_update age expired integrate ps j = ps j) \<and>
   alive_count ps \<le> MAX_PARTICLES \<and>
   finite {j. alive (pool_run pos (particles_reset z) j)} \<and>
   card {j. alive (pool_run pos (particles_reset z) j)} \<le> MAX_PARTICLES"
proof -
  have a1: "MAX_PARTICLES = 4096"
    by (simp add: MAX_PARTICLES_def)
  have "rc mod 80 < 80" by simp
  then have a2: "120 \<le> explosion_count rc" and a3: "explosion_count rc \<le> 199"
    by (simp_all add: explosion_count_def)
  have c: "\<forall>j. spawn_explosion ps rc mk j \<noteq> ps j \<longrightarrow>
      j < MAX_PARTICLES \<and> \<not> alive (ps j) \<and> alive (spawn_explosion ps rc mk j)"
    unfolding spawn_explosion_def using spawn_loop_keeps by blast
  then have b: "\<forall>j. alive (ps j) \<longrightarrow> spawn_explosion ps rc mk j = ps j"
    by blast
  have d: "alive_count (spawn_explosion ps rc mk) =
      min MAX_PARTICLES (alive_count ps + explosion_count rc)"
    by (simp add: spawn_explosion_def spawn_loop_count)
  have e: "alive_count ps = MAX_PARTICLES \<longrightarrow> spawn_explosion ps rc mk = ps"
    by (simp add: spawn_explosion_def spawn_loop_full)
  have f: "\<forall>j. alive (particles_update age expired integrate ps j) \<longrightarrow> alive (ps j)"
    unfolding particles_update_def using update_loop_alive by blast
  have h: "\<forall>j \<ge> MAX_PARTICLES. particles_update age expired integrate ps j = ps j"
    by (simp add: particles_update_def update_loop_outside)
  have i: "alive_count ps \<le> MAX_PARTICLES"
    by (rule alive_count_le)
  define qs where "qs = pool_run pos (particles_reset z)"
  have "\<forall>j \<ge> MAX_PARTICLES. \<not> alive (particles_reset z j)"
    by (simp add: particles_reset_def)
  from pool_run_dead_outside [OF this, of pos]
  have "{j. alive (qs j)} = {j. j < MAX_PARTICLES \<and> alive (qs j)}"
    by (auto simp: qs_def not_le [symmetric])
  then have k: "finite {j. alive (qs j)}" and l: "card {j. alive (qs j)} \<le> MAX_PARTICLES"
    using alive_count_le [of qs] by (simp_all add: alive_count_card)
  from a1 a2 a3 b c d e f h i k l show ?thesis unfolding qs_def by (intro conjI)
qed

theorem particle_pool_capacity_witness:
  "alive_count (spawn_explosion (particles_reset ()) 0 (\<lambda>i. ())) = 120 \<and>
   card {j. alive (pool_run [Explode 7 (\<lambda>i. ()), Update id (\<lambda>v. True) id, Explode 0 (\<lambda>i. ())]
      (particles_reset ()) j)} \<le> 4096 \<and>
   spawn_explosion (\<lambda>j. \<lparr>alive = True, body = ()\<rparr>) 79 (\<lambda>i. ()) = (\<lambda>j. \<lparr>alive = True, body = ()\<rparr>)"
proof -
  have z: "alive_count (particles_reset ()) = 0"
    by (simp add: alive_count_def particles_reset_def)
  have full: "alive_count (\<lambda>j. \<lparr>alive = True, body = ()\<rparr>) = MAX_PARTICLES"
    by (simp add: alive_count_def)
  note c2 = conjunct2
  from particle_pool_capacity [of 0 "particles_reset ()" "\<lambda>i. ()",
      THEN c2, THEN c2, THEN c2, THEN c2, THEN c2, THEN conjunct1] z
  have a: "alive_count (spawn_explosion (particles_reset ()) 0 (\<lambda>i. ())) = 120"
    by (simp add: explosion_count_def MAX_PARTICLES_def)
  from particle_pool_capacity [of 0 "particles_reset ()" "\<lambda>i. ()" id "\<lambda>v. True" id
      "[Explode 7 (\<lambda>i. ()), Update id (\<lambda>v. True) id, Explode 0 (\<lambda>i. ())]" "()",
      THEN c2, THEN c2, THEN c2, THEN c2, THEN c2, THEN c2, THEN c2, THEN c2, THEN c2, THEN c2,
      THEN c2]
  have b: "card {j. alive (pool_run [Explode 7 (\<lambda>i. ()), Update id (\<lambda>v. True) id, Explode 0 (\<lambda>i. ())]
      (particles_reset ()) j)} \<le> 4096"
    by (simp only: MAX_PARTICLES_def)
  from particle_pool_capacity [of 79 "\<lambda>j. \<lparr>alive = True, body = ()\<rparr>" "\<lambda>i. ()",
      THEN c2, THEN c2, THEN c2, THEN c2, THEN c2, THEN c2, THEN conjunct1] full
  have c: "spawn_explosion (\<lambda>j. \<lparr>alive = True, body = ()\<rparr>) 79 (\<lambda>i. ()) =
      (\<lambda>j. \<lparr>alive = True, body = ()\<rparr>)"
    by (elim impE)
  from a b c show ?thesis by (intro conjI)
qed

end
